theory Spec2Isabelle
  imports Main "HOL-Library.AList" "HOL-Library.Sublist"
begin

section \<open>Data model of Queue.node.ts\<close>

text \<open>
  The payload type \<open>INodeExecutionData\<close> is opaque to the node: it is stored, and copied
  to the output with \<^verbatim>\<open>{ ...front.data }\<close>. It is the type parameter \<open>'d\<close>.
  \<open>timestamp\<close> holds the reading of \<^verbatim>\<open>Date.now()\<close>.
\<close>

record 'd QueueEntry =
  key :: string
  data :: 'd
  timestamp :: int

record 'd KeyQueueState =
  queue :: "'d QueueEntry list"
  locked :: bool

text \<open>
  \<^verbatim>\<open>Record<string, KeyQueueState>\<close> is a JavaScript object: an association list in
  insertion order. The fields of \<open>QueueStaticData\<close> are all optional; they carry the
  prefix \<open>sd_\<close> because \<open>queue\<close> and \<open>locked\<close> already name the fields of
  \<open>KeyQueueState\<close>.
\<close>

type_synonym 'd queues = "(string \<times> 'd KeyQueueState) list"

record 'd QueueStaticData =
  sd_queue :: "'d QueueEntry list option"
  sd_locked :: "bool option"
  sd_queues :: "'d queues option"

datatype mode = modeSingle | modeMulti

text \<open>
  One item of the data input together with what the loop body reads for it:
  \<^verbatim>\<open>getNodeParameter('key', i)\<close>, \<^verbatim>\<open>dataInput[i]\<close> and \<^verbatim>\<open>Date.now()\<close>.
\<close>

record 'd DataItem =
  item_key :: string
  item_data :: 'd
  item_now :: int

datatype error = TypeError

text \<open>
  A signal item is read only through \<^verbatim>\<open>signalInput[i].json?.key as string\<close>. The cast
  checks nothing at run time: the value is whatever the item's \<open>json\<close> holds under
  \<open>key\<close>, any JSON value. A number is given by its rendering \<^verbatim>\<open>String(n)\<close>, which is
  all the code can observe of it. \<open>None\<close> is \<open>undefined\<close>: no \<open>json\<close>, or no \<open>key\<close> in it.
\<close>

datatype json =
    JNull
  | JBool bool
  | JNumber string
  | JString string
  | JArray "json list"
  | JObject "(string \<times> json) list"

type_synonym signal = "json option"

text \<open>
  \<^verbatim>\<open>!signalKey\<close>: the falsy values are \<open>undefined\<close>, \<open>null\<close>, \<open>false\<close>, the numbers \<open>0\<close>,
  \<open>-0\<close> (both rendered \<open>0\<close>) and \<open>NaN\<close>, and the empty string. Every array and every
  object is truthy.
\<close>

fun truthy :: "json \<Rightarrow> bool" where
  "truthy JNull = False"
| "truthy (JBool b) = b"
| "truthy (JNumber s) = (s \<noteq> ''0'' \<and> s \<noteq> ''NaN'')"
| "truthy (JString s) = (s \<noteq> [])"
| "truthy (JArray xs) = True"
| "truthy (JObject ps) = True"

text \<open>
  \<^verbatim>\<open>staticData.queues![signalKey]\<close> converts the key to a property name. A primitive is
  rendered; an array goes through \<open>Array.prototype.toString\<close>, which joins the elements
  with commas, \<open>null\<close> elements rendered empty; an object goes through
  \<open>Object.prototype.toString\<close>, unless it has an own property \<open>toString\<close>: the value of
  that is JSON data and not callable, \<open>valueOf\<close> gives no primitive either, and the
  conversion throws a \<open>TypeError\<close>.
\<close>

fun to_string :: "json \<Rightarrow> error + string"
  and join :: "json list \<Rightarrow> error + string" where
  "to_string JNull = Inr ''null''"
| "to_string (JBool b) = Inr (if b then ''true'' else ''false'')"
| "to_string (JNumber s) = Inr s"
| "to_string (JString s) = Inr s"
| "to_string (JArray xs) = join xs"
| "to_string (JObject ps) =
     (if ''toString'' \<in> fst ` set ps then Inl TypeError else Inr ''[object Object]'')"
| "join [] = Inr []"
| "join (x # xs) =
     (case (if x = JNull then Inr [] else to_string x) of
        Inl e \<Rightarrow> Inl e
      | Inr s \<Rightarrow>
          if xs = [] then Inr s
          else (case join xs of Inl e \<Rightarrow> Inl e | Inr t \<Rightarrow> Inr (s @ '','' @ t)))"

definition to_property_key :: "json \<Rightarrow> error + string" where
  "to_property_key v = to_string v"

section \<open>JavaScript objects used as dictionaries\<close>

text \<open>
  \<^verbatim>\<open>staticData.queues\<close> is created by the literal \<^verbatim>\<open>{}\<close>, so a property read
  that finds no own property falls through to \<open>Object.prototype\<close>. Such a value is
  neither \<open>null\<close> nor \<open>undefined\<close>, and it has no \<open>queue\<close> property.
\<close>

datatype 'a property = Undefined | Inherited | Own 'a

definition object_prototype_keys :: "string list" where
  "object_prototype_keys =
     [''constructor'', ''__defineGetter__'', ''__defineSetter__'', ''hasOwnProperty'',
      ''__lookupGetter__'', ''__lookupSetter__'', ''isPrototypeOf'',
      ''propertyIsEnumerable'', ''toString'', ''valueOf'', ''__proto__'',
      ''toLocaleString'']"

definition get_property :: "(string \<times> 'a) list \<Rightarrow> string \<Rightarrow> 'a property" where
  "get_property obj k =
     (case map_of obj k of
        Some v \<Rightarrow> Own v
      | None \<Rightarrow> if k \<in> set object_prototype_keys then Inherited else Undefined)"

text \<open>
  \<^verbatim>\<open>Object.keys\<close>: the keys that are array indices (canonical decimal numerals below
  \<open>2^32 - 1\<close>) in ascending numeric order, then the other keys in insertion order.
\<close>

definition is_digit :: "char \<Rightarrow> bool" where
  "is_digit c = (c \<in> set ''0123456789'')"

definition digit_value :: "char \<Rightarrow> nat" where
  "digit_value c = of_char c - 48"

definition index_value :: "string \<Rightarrow> nat" where
  "index_value s = foldl (\<lambda>n c. 10 * n + digit_value c) 0 s"

definition is_array_index :: "string \<Rightarrow> bool" where
  "is_array_index s =
     (s \<noteq> [] \<and> list_all is_digit s \<and> (hd s \<noteq> CHR ''0'' \<or> length s = 1)
      \<and> index_value s < 4294967295)"

definition object_keys :: "(string \<times> 'a) list \<Rightarrow> string list" where
  "object_keys obj =
     (let ks = map fst obj
      in sort_key index_value (filter is_array_index ks)
         @ filter (\<lambda>k. \<not> is_array_index k) ks)"

section \<open>The phases of execute\<close>

subsection \<open>Enqueue\<close>

definition new_entry :: "'d DataItem \<Rightarrow> 'd QueueEntry" where
  "new_entry it = \<lparr>key = item_key it, data = item_data it, timestamp = item_now it\<rparr>"

text \<open>
  Single mode works on \<^verbatim>\<open>staticData.queue\<close> and \<^verbatim>\<open>staticData.locked\<close>, which the
  initialisation has made present; the two are held in one \<open>KeyQueueState\<close>.
\<close>

fun enqueue_single :: "'d DataItem list \<Rightarrow> 'd KeyQueueState \<Rightarrow> 'd KeyQueueState" where
  "enqueue_single [] st = st"
| "enqueue_single (it # its) st =
     enqueue_single its (st\<lparr>queue := queue st @ [new_entry it]\<rparr>)"

text \<open>
  Multi mode: \<^verbatim>\<open>queues[key] ??= { queue: [], locked: false }\<close> assigns only when the
  read is nullish; \<^verbatim>\<open>queues[key].queue.push(entry)\<close> then throws a \<open>TypeError\<close> when
  the value read is an inherited one. The error carries the object as mutated so far;
  the loop does not touch \<open>output\<close>.
\<close>

definition enqueue_multi_item ::
  "'d DataItem \<Rightarrow> 'd queues \<Rightarrow> error + 'd queues" where
  "enqueue_multi_item it qs =
     (let entry = new_entry it; k = item_key it in
      case get_property qs k of
        Undefined \<Rightarrow> Inr (AList.update k \<lparr>queue = [entry], locked = False\<rparr> qs)
      | Inherited \<Rightarrow> Inl TypeError
      | Own st \<Rightarrow> Inr (AList.update k (st\<lparr>queue := queue st @ [entry]\<rparr>) qs))"

fun enqueue_multi ::
  "'d DataItem list \<Rightarrow> 'd queues \<Rightarrow> (error \<times> 'd queues) + 'd queues" where
  "enqueue_multi [] qs = Inr qs"
| "enqueue_multi (it # its) qs =
     (case enqueue_multi_item it qs of
        Inl e \<Rightarrow> Inl (e, qs)
      | Inr qs' \<Rightarrow> enqueue_multi its qs')"

subsection \<open>Promotion of the front item\<close>

definition promote_single ::
  "'d KeyQueueState \<Rightarrow> 'd list \<Rightarrow> 'd KeyQueueState \<times> 'd list" where
  "promote_single st output =
     (if \<not> locked st \<and> length (queue st) > 0
      then (st\<lparr>locked := True\<rparr>, output @ [data (hd (queue st))])
      else (st, output))"

text \<open>
  The loop \<^verbatim>\<open>for (const key of Object.keys(staticData.queues!))\<close>. A key that is no
  own property cannot come out of \<open>Object.keys\<close>; reading \<open>state.locked\<close> or
  \<open>state.queue.length\<close> for one would throw.
\<close>

fun promote_keys ::
  "string list \<Rightarrow> 'd queues \<Rightarrow> 'd list
     \<Rightarrow> (error \<times> 'd queues \<times> 'd list) + ('d queues \<times> 'd list)" where
  "promote_keys [] qs output = Inr (qs, output)"
| "promote_keys (k # ks) qs output =
     (case get_property qs k of
        Own st \<Rightarrow>
          if \<not> locked st \<and> length (queue st) > 0
          then promote_keys ks (AList.update k (st\<lparr>locked := True\<rparr>) qs)
                 (output @ [data (hd (queue st))])
          else promote_keys ks qs output
      | _ \<Rightarrow> Inl (TypeError, qs, output))"

definition promote_multi ::
  "'d queues \<Rightarrow> 'd list \<Rightarrow> (error \<times> 'd queues \<times> 'd list) + ('d queues \<times> 'd list)" where
  "promote_multi qs output = promote_keys (object_keys qs) qs output"

subsection \<open>Signals\<close>

text \<open>
  \<^verbatim>\<open>if (!signalKey) continue\<close>, then single mode: \<^verbatim>\<open>q[0].key === signalKey\<close> is strict
  equality, so a key that is no string equals no entry's key, and nothing is converted.
\<close>

definition signal_single ::
  "signal \<Rightarrow> 'd KeyQueueState \<Rightarrow> 'd list \<Rightarrow> 'd KeyQueueState \<times> 'd list" where
  "signal_single sk st output =
     (case sk of
        None \<Rightarrow> (st, output)
      | Some signalKey \<Rightarrow>
          if \<not> truthy signalKey then (st, output)
          else if length (queue st) = 0 then (st, output)
          else if JString (key (hd (queue st))) = signalKey then
            (let st1 = st\<lparr>queue := tl (queue st)\<rparr>;
                 st2 = st1\<lparr>locked := False\<rparr>
             in if length (queue st2) > 0
                then (st2\<lparr>locked := True\<rparr>, output @ [data (hd (queue st2))])
                else (st2, output))
          else (st, output))"

fun signals_single ::
  "signal list \<Rightarrow> 'd KeyQueueState \<Rightarrow> 'd list \<Rightarrow> 'd KeyQueueState \<times> 'd list" where
  "signals_single [] st output = (st, output)"
| "signals_single (sk # sks) st output =
     (case signal_single sk st output of (st', output') \<Rightarrow> signals_single sks st' output')"

text \<open>
  Multi mode: \<^verbatim>\<open>staticData.queues![signalKey]\<close> converts the key, which may throw, and
  reads the property. \<^verbatim>\<open>if (!state || !state.queue.length) continue\<close>: an inherited value
  is truthy and has no \<open>queue\<close>, so \<open>state.queue.length\<close> throws.
  \<^verbatim>\<open>delete staticData.queues![signalKey]\<close> converts the key again, to the same name.
\<close>

definition signal_multi ::
  "signal \<Rightarrow> 'd queues \<Rightarrow> 'd list \<Rightarrow> error + ('d queues \<times> 'd list)" where
  "signal_multi sk qs output =
     (case sk of
        None \<Rightarrow> Inr (qs, output)
      | Some signalKey \<Rightarrow>
          if \<not> truthy signalKey then Inr (qs, output)
          else
            (case to_property_key signalKey of
               Inl e \<Rightarrow> Inl e
             | Inr k \<Rightarrow>
                 (case get_property qs k of
                    Undefined \<Rightarrow> Inr (qs, output)
                  | Inherited \<Rightarrow> Inl TypeError
                  | Own st \<Rightarrow>
                      if length (queue st) = 0 then Inr (qs, output)
                      else
                        (let st1 = st\<lparr>queue := tl (queue st)\<rparr>;
                             st2 = st1\<lparr>locked := False\<rparr>
                         in if length (queue st2) > 0
                            then Inr (AList.update k (st2\<lparr>locked := True\<rparr>) qs,
                                      output @ [data (hd (queue st2))])
                            else Inr (AList.delete k qs, output)))))"

fun signals_multi ::
  "signal list \<Rightarrow> 'd queues \<Rightarrow> 'd list
     \<Rightarrow> (error \<times> 'd queues \<times> 'd list) + ('d queues \<times> 'd list)" where
  "signals_multi [] qs output = Inr (qs, output)"
| "signals_multi (sk # sks) qs output =
     (case signal_multi sk qs output of
        Inl e \<Rightarrow> Inl (e, qs, output)
      | Inr (qs', output') \<Rightarrow> signals_multi sks qs' output')"

subsection \<open>execute\<close>

text \<open>
  \<open>initial_single\<close> and \<open>initial_queues\<close> are the values of the fields after
  \<^verbatim>\<open>staticData.queue ??= []\<close>, \<^verbatim>\<open>staticData.locked ??= false\<close> and
  \<^verbatim>\<open>staticData.queues ??= {}\<close>. The result is \<open>Inr (staticData, output)\<close> when execute
  returns \<^verbatim>\<open>[output]\<close>. When it throws, the result is \<open>Inl (error, staticData, output)\<close>:
  the static data as mutated up to the throw, and the local array \<open>output\<close> as it was
  then, which the caller never receives.
\<close>

definition initial_single :: "'d QueueStaticData \<Rightarrow> 'd KeyQueueState" where
  "initial_single staticData =
     \<lparr>queue = (case sd_queue staticData of None \<Rightarrow> [] | Some q \<Rightarrow> q),
      locked = (case sd_locked staticData of None \<Rightarrow> False | Some l \<Rightarrow> l)\<rparr>"

definition initial_queues :: "'d QueueStaticData \<Rightarrow> 'd queues" where
  "initial_queues staticData = (case sd_queues staticData of None \<Rightarrow> [] | Some qs \<Rightarrow> qs)"

definition execute ::
  "mode \<Rightarrow> 'd DataItem list \<Rightarrow> signal list \<Rightarrow> 'd QueueStaticData
     \<Rightarrow> (error \<times> 'd QueueStaticData \<times> 'd list) + ('d QueueStaticData \<times> 'd list)" where
  "execute m dataInput signalInput staticData =
     (case m of
        modeSingle \<Rightarrow>
          (let st0 = initial_single staticData;
               st1 = enqueue_single dataInput st0;
               (st2, output2) = promote_single st1 [];
               (st3, output3) = signals_single signalInput st2 output2
           in Inr (staticData\<lparr>sd_queue := Some (queue st3), sd_locked := Some (locked st3)\<rparr>,
                   output3))
      | modeMulti \<Rightarrow>
          (let qs0 = initial_queues staticData in
           case enqueue_multi dataInput qs0 of
             Inl (e, qs1) \<Rightarrow> Inl (e, staticData\<lparr>sd_queues := Some qs1\<rparr>, [])
           | Inr qs1 \<Rightarrow>
               (case promote_multi qs1 [] of
                  Inl (e, qs2, output2) \<Rightarrow>
                    Inl (e, staticData\<lparr>sd_queues := Some qs2\<rparr>, output2)
                | Inr (qs2, output2) \<Rightarrow>
                    (case signals_multi signalInput qs2 output2 of
                       Inl (e, qs3, output3) \<Rightarrow>
                         Inl (e, staticData\<lparr>sd_queues := Some qs3\<rparr>, output3)
                     | Inr (qs3, output3) \<Rightarrow>
                         Inr (staticData\<lparr>sd_queues := Some qs3\<rparr>, output3)))))"

section \<open>One queue at a time\<close>

text \<open>
  The node keeps one queue in single mode and one queue per key in multi mode. \<open>view\<close>
  reads the state of any of them from the static data: a missing field or key is an
  empty, unlocked queue.
\<close>

datatype qid = Global | Keyed string

definition empty_state :: "'d KeyQueueState" where
  "empty_state = \<lparr>queue = [], locked = False\<rparr>"

definition key_view :: "'d queues \<Rightarrow> string \<Rightarrow> 'd KeyQueueState" where
  "key_view qs k = (case map_of qs k of None \<Rightarrow> empty_state | Some st \<Rightarrow> st)"

definition mk_view :: "'d KeyQueueState \<Rightarrow> 'd queues \<Rightarrow> qid \<Rightarrow> 'd KeyQueueState" where
  "mk_view st qs x = (case x of Global \<Rightarrow> st | Keyed k \<Rightarrow> key_view qs k)"

definition view :: "'d QueueStaticData \<Rightarrow> qid \<Rightarrow> 'd KeyQueueState" where
  "view staticData = mk_view (initial_single staticData) (initial_queues staticData)"

text \<open>Lock promotion as the specification words it, for one queue.\<close>

definition promotable :: "'d KeyQueueState \<Rightarrow> bool" where
  "promotable st = (\<not> locked st \<and> queue st \<noteq> [])"

definition promoted :: "'d KeyQueueState \<Rightarrow> 'd KeyQueueState" where
  "promoted st = (if promotable st then st\<lparr>locked := True\<rparr> else st)"


text \<open>
  The queue that a signal selects in multi mode: the property name its key is converted
  to. A signal without a key, with a falsy key, or with a key whose conversion throws
  selects no queue.
\<close>

definition selected :: "signal \<Rightarrow> string option" where
  "selected sk =
     (case sk of
        None \<Rightarrow> None
      | Some v \<Rightarrow>
          if truthy v then (case to_property_key v of Inl e \<Rightarrow> None | Inr k \<Rightarrow> Some k)
          else None)"

text \<open>
  A signal is matched when the code releases the head of a queue for it: in single
  mode, the key is a non-empty string and the queue is non-empty with that key at its
  head; in multi mode, the signal selects a key that has an own queue, non-empty.
\<close>

definition matches_single :: "signal \<Rightarrow> 'd KeyQueueState \<Rightarrow> bool" where
  "matches_single sk st =
     (case sk of None \<Rightarrow> False
      | Some v \<Rightarrow> truthy v \<and> queue st \<noteq> [] \<and> v = JString (key (hd (queue st))))"

definition matches_multi :: "signal \<Rightarrow> 'd queues \<Rightarrow> bool" where
  "matches_multi sk qs =
     (case selected sk of None \<Rightarrow> False
      | Some k \<Rightarrow> (case map_of qs k of None \<Rightarrow> False | Some st \<Rightarrow> queue st \<noteq> []))"

text \<open>
  The admissions of the signal phase, one list per signal, in the order of the signal
  batch; each is what the signal adds to \<open>output\<close>.
\<close>

fun release_admissions_single :: "signal list \<Rightarrow> 'd KeyQueueState \<Rightarrow> 'd list list" where
  "release_admissions_single [] st = []"
| "release_admissions_single (sk # sks) st =
     snd (signal_single sk st []) # release_admissions_single sks (fst (signal_single sk st []))"

fun release_admissions_multi :: "signal list \<Rightarrow> 'd queues \<Rightarrow> 'd list list" where
  "release_admissions_multi [] qs = []"
| "release_admissions_multi (sk # sks) qs =
     (case signal_multi sk qs [] of
        Inl e \<Rightarrow> []
      | Inr (qs', out) \<Rightarrow> out # release_admissions_multi sks qs')"

section \<open>Runs of invocations\<close>

text \<open>
  The static data starts as the empty object and is handed from one invocation to the
  next. An invocation that throws leaves the static data as mutated so far and returns
  no output. \<open>run_output\<close> collects the outputs returned; \<open>run_admitted\<close> collects all
  that was pushed to \<open>output\<close>, also by the invocations that did not return it.
\<close>

record 'd Invocation =
  inv_mode :: mode
  inv_data :: "'d DataItem list"
  inv_signals :: "signal list"

definition initial :: "'d QueueStaticData" where
  "initial = \<lparr>sd_queue = None, sd_locked = None, sd_queues = None\<rparr>"

definition state_after :: "'d Invocation \<Rightarrow> 'd QueueStaticData \<Rightarrow> 'd QueueStaticData" where
  "state_after i sd =
     (case execute (inv_mode i) (inv_data i) (inv_signals i) sd of
        Inl (e, sd', out) \<Rightarrow> sd' | Inr (sd', out) \<Rightarrow> sd')"

definition returned :: "'d Invocation \<Rightarrow> 'd QueueStaticData \<Rightarrow> 'd list option" where
  "returned i sd =
     (case execute (inv_mode i) (inv_data i) (inv_signals i) sd of
        Inl (e, sd', out) \<Rightarrow> None | Inr (sd', out) \<Rightarrow> Some out)"

definition pushed :: "'d Invocation \<Rightarrow> 'd QueueStaticData \<Rightarrow> 'd list" where
  "pushed i sd =
     (case execute (inv_mode i) (inv_data i) (inv_signals i) sd of
        Inl (e, sd', out) \<Rightarrow> out | Inr (sd', out) \<Rightarrow> out)"

fun run_state :: "'d QueueStaticData \<Rightarrow> 'd Invocation list \<Rightarrow> 'd QueueStaticData" where
  "run_state sd [] = sd"
| "run_state sd (i # invs) = run_state (state_after i sd) invs"

fun run_output :: "'d QueueStaticData \<Rightarrow> 'd Invocation list \<Rightarrow> 'd list" where
  "run_output sd [] = []"
| "run_output sd (i # invs) =
     (case returned i sd of None \<Rightarrow> [] | Some out \<Rightarrow> out) @ run_output (state_after i sd) invs"

fun run_admitted :: "'d QueueStaticData \<Rightarrow> 'd Invocation list \<Rightarrow> 'd list" where
  "run_admitted sd [] = []"
| "run_admitted sd (i # invs) = pushed i sd @ run_admitted (state_after i sd) invs"

fun run_returns :: "'d QueueStaticData \<Rightarrow> 'd Invocation list \<Rightarrow> bool" where
  "run_returns sd [] = True"
| "run_returns sd (i # invs) = (returned i sd \<noteq> None \<and> run_returns (state_after i sd) invs)"

text \<open>
  The queue an arrival is appended to, with its payload: the global queue in single
  mode, the queue of its key in multi mode. \<open>arrivals x invs\<close> lists the payloads that
  the invocations \<open>invs\<close> bring for queue \<open>x\<close>, in order.
\<close>

definition route :: "mode \<Rightarrow> 'd DataItem \<Rightarrow> qid \<times> 'd" where
  "route m it = (case m of modeSingle \<Rightarrow> Global | modeMulti \<Rightarrow> Keyed (item_key it), item_data it)"

definition proj :: "qid \<Rightarrow> (qid \<times> 'd) list \<Rightarrow> 'd list" where
  "proj x T = map snd (filter (\<lambda>p. fst p = x) T)"

definition routed :: "'d Invocation list \<Rightarrow> (qid \<times> 'd) list" where
  "routed invs = concat (map (\<lambda>i. map (route (inv_mode i)) (inv_data i)) invs)"

definition arrivals :: "qid \<Rightarrow> 'd Invocation list \<Rightarrow> 'd list" where
  "arrivals x invs = proj x (routed invs)"

section \<open>The three events of a queue\<close>

text \<open>
  Every phase of \<open>execute\<close> acts on the queues through three events: an entry is
  appended, the head of an unlocked non-empty queue is admitted, the head of a locked
  queue is released. The signals find every non-empty queue of their mode locked
  (\<open>busy\<close>), because the promotion phase has just run.
  A configuration holds the state of every queue, the payloads appended to each queue so
  far, and the admissions so far, each with its queue.
\<close>

type_synonym 'd cfg = "(qid \<Rightarrow> 'd KeyQueueState) \<times> (qid \<Rightarrow> 'd list) \<times> (qid \<times> 'd) list"

inductive astep :: "'d cfg \<Rightarrow> 'd cfg \<Rightarrow> bool" where
  enq: "astep (V, B, T) (V(x := (V x)\<lparr>queue := queue (V x) @ [e]\<rparr>), B(x := B x @ [data e]), T)"
| admit: "\<not> locked (V x) \<Longrightarrow> queue (V x) \<noteq> [] \<Longrightarrow>
     astep (V, B, T) (V(x := (V x)\<lparr>locked := True\<rparr>), B, T @ [(x, data (hd (queue (V x))))])"
| release: "queue (V x) \<noteq> [] \<Longrightarrow> locked (V x) \<Longrightarrow>
     astep (V, B, T) (V(x := \<lparr>queue = tl (queue (V x)), locked = False\<rparr>), B, T)"

definition busy :: "'d KeyQueueState \<Rightarrow> bool" where
  "busy s = (queue s \<noteq> [] \<longrightarrow> locked s)"

definition busy_keys :: "'d queues \<Rightarrow> bool" where
  "busy_keys qs = (\<forall>k s. map_of qs k = Some s \<longrightarrow> busy s)"

text \<open>
  The invariants. \<open>ainv\<close>: what was appended to a queue is what was released from it
  followed by what it holds, and its admissions are, in order, among the released
  payloads and the present holder. \<open>aexact\<close>: its admissions are exactly the released
  payloads and the present holder. \<open>lock_ne\<close>: a locked queue is non-empty.
  \<open>lock_emitted\<close>: the head of a locked queue has been admitted. \<open>gc_inv\<close>: no key of
  the mapping has an empty queue.
\<close>

definition holder :: "'d KeyQueueState \<Rightarrow> 'd list" where
  "holder s = (if locked s then take 1 (map data (queue s)) else [])"

definition ainv :: "'d cfg \<Rightarrow> bool" where
  "ainv c = (case c of (V, B, T) \<Rightarrow>
     \<forall>x. \<exists>R. B x = R @ map data (queue (V x)) \<and> subseq (proj x T) (R @ holder (V x)))"

definition aexact :: "'d cfg \<Rightarrow> bool" where
  "aexact c = (case c of (V, B, T) \<Rightarrow>
     \<forall>x. \<exists>R. B x = R @ map data (queue (V x)) \<and> proj x T = R @ holder (V x))"

definition lock_ne :: "(qid \<Rightarrow> 'd KeyQueueState) \<Rightarrow> bool" where
  "lock_ne V = (\<forall>x. locked (V x) \<longrightarrow> queue (V x) \<noteq> [])"

definition lock_emitted :: "(qid \<Rightarrow> 'd KeyQueueState) \<Rightarrow> (qid \<times> 'd) list \<Rightarrow> bool" where
  "lock_emitted V T = (\<forall>x. locked (V x) \<longrightarrow> queue (V x) \<noteq> [] \<and> (x, data (hd (queue (V x)))) \<in> set T)"

definition gc_inv :: "'d queues \<Rightarrow> bool" where
  "gc_inv qs = (\<forall>k st. map_of qs k = Some st \<longrightarrow> queue st \<noteq> [])"

section \<open>Example runs\<close>

text \<open>
  The scenarios of the specification, with natural numbers as payloads. Single mode:
  \<open>A\<close> (key \<open>k1\<close>, payload 1) and \<open>B\<close> (key \<open>k2\<close>, payload 2) arrive, then the signal
  \<open>k1\<close> is sent twice. Multi mode: \<open>X\<close> (key \<open>a\<close>, payload 1), \<open>Y\<close> (key \<open>b\<close>, payload 2)
  and \<open>Z\<close> (key \<open>a\<close>, payload 3) arrive, then the signal \<open>a\<close> is sent.
\<close>

definition arrival :: "string \<Rightarrow> nat \<Rightarrow> nat DataItem" where
  "arrival k n = \<lparr>item_key = k, item_data = n, item_now = 1000 + int n\<rparr>"

definition entry :: "string \<Rightarrow> nat \<Rightarrow> nat QueueEntry" where
  "entry k n = \<lparr>key = k, data = n, timestamp = 1000 + int n\<rparr>"

definition scenario_single :: "nat Invocation list" where
  "scenario_single =
     [\<lparr>inv_mode = modeSingle, inv_data = [arrival ''k1'' 1], inv_signals = []\<rparr>,
      \<lparr>inv_mode = modeSingle, inv_data = [arrival ''k2'' 2], inv_signals = []\<rparr>,
      \<lparr>inv_mode = modeSingle, inv_data = [], inv_signals = [Some (JString ''k1'')]\<rparr>,
      \<lparr>inv_mode = modeSingle, inv_data = [], inv_signals = [Some (JString ''k1'')]\<rparr>]"

definition scenario_multi :: "nat Invocation list" where
  "scenario_multi =
     [\<lparr>inv_mode = modeMulti,
       inv_data = [arrival ''a'' 1, arrival ''b'' 2, arrival ''a'' 3], inv_signals = []\<rparr>,
      \<lparr>inv_mode = modeMulti, inv_data = [], inv_signals = [Some (JString ''a'')]\<rparr>]"

text \<open>
  One multi mode invocation on the empty static data: two arrivals under the key \<open>a\<close>,
  then a signal for \<open>a\<close> and a signal whose key names a property that every object
  inherits.
\<close>

definition scenario_inherited :: "nat Invocation list" where
  "scenario_inherited =
     [\<lparr>inv_mode = modeMulti, inv_data = [arrival ''a'' 1, arrival ''a'' 2],
       inv_signals = [Some (JString ''a''), Some (JString ''toString'')]\<rparr>]"

section \<open>Property reads and the record type\<close>

lemma get_property_Own: "get_property obj k = Own v \<longleftrightarrow> map_of obj k = Some v"
  by (simp add: get_property_def split: option.splits)

lemma get_property_Undefined: "get_property obj k = Undefined \<Longrightarrow> map_of obj k = None"
  by (simp add: get_property_def split: option.splits if_splits)

lemma get_property_Inherited: "get_property obj k = Inherited \<Longrightarrow> map_of obj k = None"
  by (simp add: get_property_def split: option.splits if_splits)

lemma KeyQueueState_update_all:
  "(s :: 'd KeyQueueState)\<lparr>queue := q, locked := l\<rparr> = \<lparr>queue = q, locked = l\<rparr>"
  by (cases s) simp

lemma KeyQueueState_eta: "\<lparr>queue = queue (s :: 'd KeyQueueState), locked = locked s\<rparr> = s"
  by (cases s) simp

lemma tl_neq: "xs \<noteq> [] \<Longrightarrow> tl xs \<noteq> xs"
  by (cases xs) auto

lemma update_neq: "map_of qs k = Some s \<Longrightarrow> v \<noteq> s \<Longrightarrow> AList.update k v qs \<noteq> qs"
  by (metis update_conv' fun_upd_same option.inject)

lemma delete_neq: "map_of qs k = Some s \<Longrightarrow> AList.delete k qs \<noteq> qs"
  by (metis delete_conv' fun_upd_same option.distinct(1))

lemma object_keys_set: "set (object_keys obj) = fst ` set obj"
  by (auto simp: object_keys_def Let_def)


section \<open>Signals, matched and unmatched\<close>

lemma signal_single_unmatched:
  "\<not> matches_single sk st \<Longrightarrow> signal_single sk st output = (st, output)"
  by (auto simp: signal_single_def matches_single_def split: option.splits)

lemma signal_single_matched:
  "matches_single sk st \<Longrightarrow> signal_single sk st output =
     (if tl (queue st) \<noteq> [] then (\<lparr>queue = tl (queue st), locked = True\<rparr>, output @ [data (hd (tl (queue st)))])
      else (\<lparr>queue = [], locked = False\<rparr>, output))"
  by (auto simp: signal_single_def matches_single_def Let_def split: option.splits)

lemma signal_single_noop_iff:
  "signal_single sk st output = (st, output) \<longleftrightarrow> \<not> matches_single sk st"
proof
  assume a: "signal_single sk st output = (st, output)"
  show "\<not> matches_single sk st"
  proof
    assume m: "matches_single sk st"
    then have "queue st \<noteq> []" by (auto simp: matches_single_def split: option.splits)
    moreover have "queue (fst (signal_single sk st output)) = tl (queue st)"
      using m by (simp add: signal_single_matched)
    ultimately show False using a tl_neq[of "queue st"] by simp
  qed
qed (rule signal_single_unmatched)

lemma selected_simps:
  "selected None = None"
  "selected (Some (JString s)) = (if s = [] then None else Some s)"
  "selected (Some JNull) = None"
  "selected (Some (JArray [])) = Some []"
  by (simp_all add: selected_def to_property_key_def)

lemma signal_multi_unmatched:
  "\<not> matches_multi sk qs \<Longrightarrow> signal_multi sk qs out = Inr (qs, out) \<or> signal_multi sk qs out = Inl TypeError"
proof (cases "signal_multi sk qs out")
  case (Inl e)
  then show ?thesis by (cases e) simp
next
  case (Inr r)
  assume "\<not> matches_multi sk qs"
  with Inr show ?thesis
    by (auto simp: signal_multi_def matches_multi_def selected_def get_property_def Let_def
        split: option.splits sum.splits if_splits property.splits)
qed

lemma signal_multi_matched:
  "selected sk = Some k \<Longrightarrow> map_of qs k = Some s \<Longrightarrow> queue s \<noteq> [] \<Longrightarrow>
   signal_multi sk qs out =
     (if tl (queue s) \<noteq> []
      then Inr (AList.update k \<lparr>queue = tl (queue s), locked = True\<rparr> qs, out @ [data (hd (tl (queue s)))])
      else Inr (AList.delete k qs, out))"
  by (auto simp: signal_multi_def selected_def get_property_def Let_def KeyQueueState_update_all
      split: option.splits sum.splits if_splits)

lemma matches_multiE:
  "matches_multi sk qs \<Longrightarrow> \<exists>k s. selected sk = Some k \<and> map_of qs k = Some s \<and> queue s \<noteq> []"
  by (auto simp: matches_multi_def split: option.splits)

lemma signal_multi_changes:
  assumes "matches_multi sk qs"
  shows "\<exists>qs' out'. signal_multi sk qs out = Inr (qs', out') \<and> qs' \<noteq> qs"
proof -
  from matches_multiE[OF assms] obtain k s where sk: "selected sk = Some k"
    and ms: "map_of qs k = Some s" and ne: "queue s \<noteq> []"
    by blast
  have "\<lparr>queue = tl (queue s), locked = True\<rparr> \<noteq> s"
    using tl_neq[OF ne] by (cases s) auto
  then show ?thesis
    using signal_multi_matched[OF sk ms ne, of out] update_neq[OF ms] delete_neq[OF ms] by auto
qed

lemma signal_multi_frame:
  "selected sk \<noteq> Some k' \<Longrightarrow> signal_multi sk qs out = Inr (qs', out') \<Longrightarrow>
   map_of qs' k' = map_of qs k'"
  by (auto simp: signal_multi_def selected_def Let_def update_conv' delete_conv'
      split: option.splits sum.splits if_splits property.splits)

lemma signals_multi_frame:
  "\<forall>sk \<in> set sks. selected sk \<noteq> Some k' \<Longrightarrow> signals_multi sks qs out = Inr (qs', out') \<Longrightarrow>
   map_of qs' k' = map_of qs k'"
proof (induction sks arbitrary: qs out)
  case Nil
  then show ?case by simp
next
  case (Cons sk sks)
  from Cons.prems(2) obtain qs1 out1 where h: "signal_multi sk qs out = Inr (qs1, out1)"
    and r: "signals_multi sks qs1 out1 = Inr (qs', out')"
    by (auto split: sum.splits)
  from Cons.prems(1) have "selected sk \<noteq> Some k'" and rest: "\<forall>sk \<in> set sks. selected sk \<noteq> Some k'"
    by simp_all
  from signal_multi_frame[OF this(1) h] Cons.IH[OF rest r] show ?case by simp
qed

lemma signals_multi_frame_throw:
  "\<forall>sk \<in> set sks. selected sk \<noteq> Some k' \<Longrightarrow> signals_multi sks qs out = Inl (e, qs', out') \<Longrightarrow>
   map_of qs' k' = map_of qs k'"
proof (induction sks arbitrary: qs out)
  case Nil
  then show ?case by simp
next
  case (Cons sk sks)
  from Cons.prems(1) have sel: "selected sk \<noteq> Some k'" and rest: "\<forall>sk \<in> set sks. selected sk \<noteq> Some k'"
    by simp_all
  show ?case
  proof (cases "signal_multi sk qs out")
    case (Inl e')
    with Cons.prems(2) show ?thesis by simp
  next
    case (Inr p)
    obtain qs1 out1 where p: "p = (qs1, out1)" by (cases p)
    from Inr p Cons.prems(2) have r: "signals_multi sks qs1 out1 = Inl (e, qs', out')" by simp
    from signal_multi_frame[OF sel Inr[unfolded p]] Cons.IH[OF rest r] show ?thesis by simp
  qed
qed

lemma signals_multi_only_empty_key:
  "\<forall>sk \<in> set sks. selected sk \<noteq> Some [] \<Longrightarrow>
   signals_multi sks [([], s)] out = Inr ([([], s)], out) \<or>
   signals_multi sks [([], s)] out = Inl (TypeError, [([], s)], out)"
proof (induction sks)
  case Nil
  then show ?case by simp
next
  case (Cons sk sks)
  from Cons.prems have "\<not> matches_multi sk [([], s)]"
    by (auto simp: matches_multi_def split: option.splits if_splits)
  from signal_multi_unmatched[OF this, of out] Cons.IH Cons.prems show ?case by auto
qed

lemma signal_single_acc:
  "signal_single sk st out = (fst (signal_single sk st []), out @ snd (signal_single sk st []))"
  by (cases "matches_single sk st") (simp_all add: signal_single_matched signal_single_unmatched)

lemma signals_single_acc:
  "snd (signals_single sks st out) = out @ concat (release_admissions_single sks st)"
proof (induction sks arbitrary: st out)
  case Nil
  then show ?case by simp
next
  case (Cons sk sks)
  show ?case
    using signal_single_acc[of sk st out] Cons.IH[of "fst (signal_single sk st [])" "out @ snd (signal_single sk st [])"]
    by simp
qed

lemma signal_multi_acc:
  "signal_multi sk qs out = (case signal_multi sk qs [] of Inl e \<Rightarrow> Inl e | Inr (qs', new) \<Rightarrow> Inr (qs', out @ new))"
  by (auto simp: signal_multi_def Let_def split: option.splits property.splits sum.splits)

lemma signals_multi_acc:
  "signals_multi sks qs out = Inr (qs', out') \<Longrightarrow> out' = out @ concat (release_admissions_multi sks qs)"
proof (induction sks arbitrary: qs out)
  case Nil
  then show ?case by simp
next
  case (Cons sk sks)
  from Cons.prems obtain qs1 out1 where h: "signal_multi sk qs out = Inr (qs1, out1)"
    and r: "signals_multi sks qs1 out1 = Inr (qs', out')"
    by (auto split: sum.splits)
  from h signal_multi_acc[of sk qs out] obtain new where
    n: "signal_multi sk qs [] = Inr (qs1, new)" "out1 = out @ new"
    by (auto split: sum.splits)
  from Cons.IH[OF r] n show ?case by simp
qed

section \<open>The promotion loop\<close>

lemma promoted_idem: "promoted (promoted st) = promoted st"
  by (simp add: promoted_def promotable_def)

lemma promote_keys_Own:
  "get_property qs k = Own st \<Longrightarrow> promote_keys (k # ks) qs out =
     (if promotable st
      then promote_keys ks (AList.update k (st\<lparr>locked := True\<rparr>) qs) (out @ [data (hd (queue st))])
      else promote_keys ks qs out)"
  by (simp add: promotable_def)

lemma promote_keys_ok:
  "set ks \<subseteq> fst ` set qs \<Longrightarrow> \<exists>qs' out'. promote_keys ks qs out = Inr (qs', out')"
proof (induction ks arbitrary: qs out)
  case Nil
  then show ?case by simp
next
  case (Cons k ks)
  from Cons.prems have "k \<in> fst ` set qs" by simp
  then obtain st where st: "map_of qs k = Some st"
    by (metis domD dom_map_of_conv_image_fst)
  have own: "get_property qs k = Own st" using st by (simp add: get_property_Own)
  show ?case
  proof (cases "promotable st")
    case True
    have "set ks \<subseteq> fst ` set (AList.update k (st\<lparr>locked := True\<rparr>) qs)"
      using Cons.prems by (auto simp: dom_update)
    from Cons.IH[OF this] show ?thesis using True by (simp add: promote_keys_Own[OF own] del: promote_keys.simps)
  next
    case False
    have "set ks \<subseteq> fst ` set qs" using Cons.prems by simp
    from Cons.IH[OF this] show ?thesis using False by (simp add: promote_keys_Own[OF own] del: promote_keys.simps)
  qed
qed

lemma promote_multi_ok: "\<exists>qs' out'. promote_multi qs out = Inr (qs', out')"
  unfolding promote_multi_def by (rule promote_keys_ok) (simp add: object_keys_set)

lemma promote_keys_state:
  "promote_keys ks qs out = Inr (qs', out') \<Longrightarrow>
     map_of qs' k = map_option (\<lambda>st. if k \<in> set ks then promoted st else st) (map_of qs k)"
proof (induction ks arbitrary: qs out)
  case Nil
  then show ?case by (simp add: option.map_ident)
next
  case (Cons a ks)
  from Cons.prems obtain st where own: "get_property qs a = Own st"
    by (auto split: property.splits)
  then have st: "map_of qs a = Some st" by (simp add: get_property_Own)
  show ?case
  proof (cases "promotable st")
    case True
    then have pr: "promoted st = st\<lparr>locked := True\<rparr>" by (simp add: promoted_def)
    from Cons.prems True
    have "promote_keys ks (AList.update a (st\<lparr>locked := True\<rparr>) qs) (out @ [data (hd (queue st))]) = Inr (qs', out')"
      by (simp add: promote_keys_Own[OF own] del: promote_keys.simps)
    from Cons.IH[OF this] show ?thesis
      using st pr by (auto simp: update_conv' promoted_idem map_option_case split: option.splits)
  next
    case False
    then have pr: "promoted st = st" by (simp add: promoted_def)
    from Cons.prems False have "promote_keys ks qs out = Inr (qs', out')"
      by (simp add: promote_keys_Own[OF own] del: promote_keys.simps)
    from Cons.IH[OF this] show ?thesis
      using st pr by (auto simp: map_option_case split: option.splits)
  qed
qed





section \<open>Lists: projections and subsequences\<close>

lemma proj_simps [simp]:
  "proj x [] = []"
  "proj x (p # T) = (if fst p = x then snd p # proj x T else proj x T)"
  "proj x (T @ T') = proj x T @ proj x T'"
  by (simp_all add: proj_def)

lemma subseq_append_right: "subseq xs ys \<Longrightarrow> subseq xs (ys @ zs)"
  by (metis append_Nil2 list_emb_append_mono subseq_order.order_refl list_emb_Nil)

lemma subseq_set_mono: "subseq xs ys \<Longrightarrow> set xs \<subseteq> set ys"
  by (induction rule: list_emb.induct) auto

lemma subseq_distinct: "subseq xs ys \<Longrightarrow> distinct ys \<Longrightarrow> distinct xs"
  by (induction rule: list_emb.induct) (auto dest: subseq_set_mono)

lemma prefix_proj: "prefix its' its \<Longrightarrow> subseq (proj x (map f its')) (proj x (map f its))"
  by (auto simp: prefix_def intro: subseq_append_right)

lemma proj_disjoint:
  "distinct (map snd L) \<Longrightarrow> x \<noteq> y \<Longrightarrow> set (proj x L) \<inter> set (proj y L) = {}"
  by (induction L) (auto simp: proj_def)

lemma proj_distinct: "distinct (map snd L) \<Longrightarrow> distinct (proj x L)"
  by (simp add: proj_def distinct_map_filter)

lemma mem_proj: "(y, p) \<in> set T \<Longrightarrow> p \<in> set (proj y T)"
  by (force simp: proj_def)

lemma filter_proj_aux:
  "\<forall>q\<in>set T. (fst q = x) = (snd q \<in> S) \<Longrightarrow> filter (\<lambda>p. p \<in> S) (map snd T) = proj x T"
  by (induction T) (auto simp: proj_def)

lemma filter_proj:
  assumes "\<And>y p. (y, p) \<in> set T \<Longrightarrow> y \<noteq> x \<Longrightarrow> p \<notin> S"
    and "\<And>p. (x, p) \<in> set T \<Longrightarrow> p \<in> S"
  shows "filter (\<lambda>p. p \<in> S) (map snd T) = proj x T"
  by (rule filter_proj_aux) (use assms in force)

lemma length_le_one: "distinct xs \<Longrightarrow> set xs \<subseteq> {a} \<Longrightarrow> length xs \<le> 1"
proof -
  assume d: "distinct xs" and s: "set xs \<subseteq> {a}"
  have "length xs = card (set xs)" using d by (simp add: distinct_card)
  also have "\<dots> \<le> card {a}" using s by (intro card_mono) auto
  finally show ?thesis by simp
qed

section \<open>Every phase is a sequence of queue events\<close>

lemma mk_view_Global: "(mk_view st qs)(Global := st') = mk_view st' qs"
  by (rule ext) (simp add: mk_view_def split: qid.splits)

lemma mk_view_Keyed:
  "(\<And>k'. k' \<noteq> k \<Longrightarrow> map_of qs' k' = map_of qs k') \<Longrightarrow>
     (mk_view st qs)(Keyed k := key_view qs' k) = mk_view st qs'"
  by (rule ext) (auto simp add: mk_view_def key_view_def split: qid.splits)

lemma mk_view_update: "mk_view st (AList.update k v qs) = (mk_view st qs)(Keyed k := v)"
  by (rule ext) (auto simp: mk_view_def key_view_def update_conv' split: qid.splits)

lemma mk_view_delete: "mk_view st (AList.delete k qs) = (mk_view st qs)(Keyed k := empty_state)"
  by (rule ext) (auto simp: mk_view_def key_view_def delete_conv' split: qid.splits)

lemma mk_view_Keyed_Some: "map_of qs k = Some s \<Longrightarrow> mk_view st qs (Keyed k) = s"
  by (simp add: mk_view_def key_view_def)

lemma astep_enq:
  "V' = V(x := (V x)\<lparr>queue := queue (V x) @ [e]\<rparr>) \<Longrightarrow> B' = B(x := B x @ [data e]) \<Longrightarrow>
     astep (V, B, T) (V', B', T)"
  by (simp add: astep.enq)

lemma astep_admit:
  "\<not> locked (V x) \<Longrightarrow> queue (V x) \<noteq> [] \<Longrightarrow> V' = V(x := (V x)\<lparr>locked := True\<rparr>) \<Longrightarrow>
     T' = T @ [(x, data (hd (queue (V x))))] \<Longrightarrow> astep (V, B, T) (V', B, T')"
  by (simp add: astep.admit)

lemma astep_release:
  "queue (V x) \<noteq> [] \<Longrightarrow> locked (V x) \<Longrightarrow>
     V' = V(x := \<lparr>queue = tl (queue (V x)), locked = False\<rparr>) \<Longrightarrow> astep (V, B, T) (V', B, T)"
  by (simp add: astep.release)

lemma enqueue_single_asteps:
  "astep\<^sup>*\<^sup>* (mk_view st qs, B, T)
     (mk_view (enqueue_single its st) qs, (\<lambda>x. B x @ proj x (map (route modeSingle) its)), T)"
proof (induction its arbitrary: st B)
  case Nil
  then show ?case by simp
next
  case (Cons it its)
  let ?V = "mk_view st qs"
  let ?st1 = "st\<lparr>queue := queue st @ [new_entry it]\<rparr>"
  let ?B1 = "B(Global := B Global @ [data (new_entry it)])"
  have "astep (?V, B, T) (?V(Global := (?V Global)\<lparr>queue := queue (?V Global) @ [new_entry it]\<rparr>), ?B1, T)"
    by (rule astep.enq)
  moreover have "?V(Global := (?V Global)\<lparr>queue := queue (?V Global) @ [new_entry it]\<rparr>) = mk_view ?st1 qs"
    by (simp add: mk_view_Global) (simp add: mk_view_def)
  ultimately have s1: "astep (?V, B, T) (mk_view ?st1 qs, ?B1, T)" by simp
  have eq: "(\<lambda>x. ?B1 x @ proj x (map (route modeSingle) its)) =
        (\<lambda>x. B x @ proj x (map (route modeSingle) (it # its)))"
    by (rule ext) (simp add: route_def new_entry_def)
  have "astep\<^sup>*\<^sup>* (mk_view ?st1 qs, ?B1, T)
     (mk_view (enqueue_single its ?st1) qs, (\<lambda>x. ?B1 x @ proj x (map (route modeSingle) its)), T)"
    by (rule Cons.IH)
  then have "astep\<^sup>*\<^sup>* (mk_view ?st1 qs, ?B1, T)
     (mk_view (enqueue_single (it # its) st) qs, (\<lambda>x. B x @ proj x (map (route modeSingle) (it # its))), T)"
    by (simp only: eq enqueue_single.simps)
  with s1 show ?case by (rule converse_rtranclp_into_rtranclp)
qed

lemma enqueue_multi_item_astep:
  assumes "enqueue_multi_item it qs = Inr qs'"
  shows "astep (mk_view st qs, B, T)
     (mk_view st qs', (\<lambda>x. B x @ proj x [route modeMulti it]), T)"
proof -
  let ?k = "item_key it"
  let ?V = "mk_view st qs"
  let ?B1 = "B(Keyed ?k := B (Keyed ?k) @ [data (new_entry it)])"
  have frame: "\<And>k'. k' \<noteq> ?k \<Longrightarrow> map_of qs' k' = map_of qs k'"
    using assms by (auto simp: enqueue_multi_item_def Let_def update_conv' split: property.splits)
  have at: "key_view qs' ?k = (key_view qs ?k)\<lparr>queue := queue (key_view qs ?k) @ [new_entry it]\<rparr>"
    using assms
    by (auto simp: enqueue_multi_item_def Let_def update_conv' key_view_def empty_state_def
        get_property_Own dest: get_property_Undefined split: property.splits)
  have "astep (?V, B, T) (?V(Keyed ?k := (?V (Keyed ?k))\<lparr>queue := queue (?V (Keyed ?k)) @ [new_entry it]\<rparr>), ?B1, T)"
    by (rule astep.enq)
  moreover have "?V(Keyed ?k := (?V (Keyed ?k))\<lparr>queue := queue (?V (Keyed ?k)) @ [new_entry it]\<rparr>) = mk_view st qs'"
  proof -
    have "?V(Keyed ?k := key_view qs' ?k) = mk_view st qs'"
      by (rule mk_view_Keyed) (rule frame)
    then show ?thesis using at by (simp add: mk_view_def)
  qed
  moreover have "?B1 = (\<lambda>x. B x @ proj x [route modeMulti it])"
    by (rule ext) (simp add: route_def new_entry_def)
  ultimately show ?thesis by (simp only:)
qed

lemma enqueue_multi_asteps:
  "enqueue_multi its qs = Inr qs' \<Longrightarrow>
     astep\<^sup>*\<^sup>* (mk_view st qs, B, T)
       (mk_view st qs', (\<lambda>x. B x @ proj x (map (route modeMulti) its)), T)"
proof (induction its arbitrary: qs B)
  case Nil
  then show ?case by simp
next
  case (Cons it its)
  from Cons.prems obtain qs1 where i1: "enqueue_multi_item it qs = Inr qs1"
    and r: "enqueue_multi its qs1 = Inr qs'"
    by (auto split: sum.splits)
  let ?B1 = "\<lambda>x. B x @ proj x [route modeMulti it]"
  have s1: "astep (mk_view st qs, B, T) (mk_view st qs1, ?B1, T)"
    using i1 by (rule enqueue_multi_item_astep)
  have eq: "(\<lambda>x. ?B1 x @ proj x (map (route modeMulti) its)) =
        (\<lambda>x. B x @ proj x (map (route modeMulti) (it # its)))"
    by (rule ext) simp
  have "astep\<^sup>*\<^sup>* (mk_view st qs1, ?B1, T)
     (mk_view st qs', (\<lambda>x. ?B1 x @ proj x (map (route modeMulti) its)), T)"
    using r by (rule Cons.IH)
  then have "astep\<^sup>*\<^sup>* (mk_view st qs1, ?B1, T)
     (mk_view st qs', (\<lambda>x. B x @ proj x (map (route modeMulti) (it # its))), T)"
    by (simp only: eq)
  with s1 show ?case by (rule converse_rtranclp_into_rtranclp)
qed

lemma enqueue_multi_asteps_throw:
  "enqueue_multi its qs = Inl (e, qs') \<Longrightarrow>
     \<exists>its'. prefix its' its \<and> astep\<^sup>*\<^sup>* (mk_view st qs, B, T)
       (mk_view st qs', (\<lambda>x. B x @ proj x (map (route modeMulti) its')), T)"
proof (induction its arbitrary: qs B)
  case Nil
  then show ?case by simp
next
  case (Cons it its)
  show ?case
  proof (cases "enqueue_multi_item it qs")
    case (Inl e')
    with Cons.prems have "qs' = qs" by simp
    then have "astep\<^sup>*\<^sup>* (mk_view st qs, B, T)
       (mk_view st qs', (\<lambda>x. B x @ proj x (map (route modeMulti) [])), T)" by simp
    then show ?thesis using Nil_prefix by blast
  next
    case (Inr qs1)
    with Cons.prems have r: "enqueue_multi its qs1 = Inl (e, qs')" by simp
    let ?B1 = "\<lambda>x. B x @ proj x [route modeMulti it]"
    have s1: "astep (mk_view st qs, B, T) (mk_view st qs1, ?B1, T)"
      using Inr by (rule enqueue_multi_item_astep)
    from Cons.IH[OF r, of ?B1] obtain its' where p: "prefix its' its"
      and st: "astep\<^sup>*\<^sup>* (mk_view st qs1, ?B1, T)
         (mk_view st qs', (\<lambda>x. ?B1 x @ proj x (map (route modeMulti) its')), T)"
      by blast
    have eq: "(\<lambda>x. ?B1 x @ proj x (map (route modeMulti) its')) =
        (\<lambda>x. B x @ proj x (map (route modeMulti) (it # its')))"
      by (rule ext) simp
    from st have "astep\<^sup>*\<^sup>* (mk_view st qs1, ?B1, T)
       (mk_view st qs', (\<lambda>x. B x @ proj x (map (route modeMulti) (it # its'))), T)"
      by (simp only: eq)
    with s1 have "astep\<^sup>*\<^sup>* (mk_view st qs, B, T)
       (mk_view st qs', (\<lambda>x. B x @ proj x (map (route modeMulti) (it # its'))), T)"
      by (rule converse_rtranclp_into_rtranclp)
    moreover have "prefix (it # its') (it # its)" using p by simp
    ultimately show ?thesis by blast
  qed
qed

lemma promote_single_asteps:
  assumes "promote_single st out = (st', out')"
  shows "\<exists>T'. astep\<^sup>*\<^sup>* (mk_view st qs, B, T) (mk_view st' qs, B, T @ T') \<and> out' = out @ map snd T'"
proof (cases "promotable st")
  case True
  then have r: "st' = st\<lparr>locked := True\<rparr>" "out' = out @ [data (hd (queue st))]"
    using assms by (auto simp: promote_single_def promotable_def)
  have "astep (mk_view st qs, B, T) (mk_view st' qs, B, T @ [(Global, data (hd (queue st)))])"
  proof (rule astep_admit[where x = Global])
    show "\<not> locked (mk_view st qs Global)" "queue (mk_view st qs Global) \<noteq> []"
      using True by (simp_all add: mk_view_def promotable_def)
    show "mk_view st' qs = (mk_view st qs)(Global := (mk_view st qs Global)\<lparr>locked := True\<rparr>)"
      by (simp add: mk_view_Global r) (simp add: mk_view_def)
    show "T @ [(Global, data (hd (queue st)))] = T @ [(Global, data (hd (queue (mk_view st qs Global))))]"
      by (simp add: mk_view_def)
  qed
  then show ?thesis using r by (intro exI[of _ "[(Global, data (hd (queue st)))]"]) auto
next
  case False
  then have "st' = st" "out' = out"
    using assms by (auto simp: promote_single_def promotable_def)
  then show ?thesis by (intro exI[of _ "[]"]) simp
qed

lemma promote_single_busy: "promote_single st out = (st', out') \<Longrightarrow> busy st'"
  by (auto simp: promote_single_def busy_def split: if_splits)

lemma promote_multi_busy:
  assumes "promote_multi qs out = Inr (qs', out')"
  shows "busy_keys qs'"
  unfolding busy_keys_def
proof (intro allI impI)
  fix k s assume m: "map_of qs' k = Some s"
  from promote_keys_state[OF assms[unfolded promote_multi_def], of k] m obtain s0 where
    s0: "map_of qs k = Some s0" "s = (if k \<in> set (object_keys qs) then promoted s0 else s0)"
    by (auto simp: map_option_case split: option.splits)
  then have "k \<in> set (object_keys qs)"
    by (metis object_keys_set domI dom_map_of_conv_image_fst)
  with s0 show "busy s" by (simp add: promoted_def promotable_def busy_def)
qed

lemma promote_keys_asteps:
  "promote_keys ks qs out = Inr (qs', out') \<Longrightarrow>
     \<exists>T'. astep\<^sup>*\<^sup>* (mk_view st qs, B, T) (mk_view st qs', B, T @ T') \<and> out' = out @ map snd T'"
proof (induction ks arbitrary: qs out T)
  case Nil
  then show ?case by (intro exI[of _ "[]"]) simp
next
  case (Cons a ks)
  from Cons.prems obtain s where own: "get_property qs a = Own s"
    by (auto split: property.splits)
  then have ms: "map_of qs a = Some s" by (simp add: get_property_Own)
  show ?case
  proof (cases "promotable s")
    case True
    let ?qs1 = "AList.update a (s\<lparr>locked := True\<rparr>) qs"
    let ?p = "(Keyed a, data (hd (queue s)))"
    from Cons.prems True
    have r: "promote_keys ks ?qs1 (out @ [data (hd (queue s))]) = Inr (qs', out')"
      by (simp add: promote_keys_Own[OF own] del: promote_keys.simps)
    have s1: "astep (mk_view st qs, B, T) (mk_view st ?qs1, B, T @ [?p])"
    proof (rule astep_admit[where x = "Keyed a"])
      show "\<not> locked (mk_view st qs (Keyed a))" "queue (mk_view st qs (Keyed a)) \<noteq> []"
        using True by (simp_all add: mk_view_Keyed_Some[OF ms] promotable_def)
      show "mk_view st ?qs1 = (mk_view st qs)(Keyed a := (mk_view st qs (Keyed a))\<lparr>locked := True\<rparr>)"
        by (simp add: mk_view_update mk_view_Keyed_Some[OF ms])
      show "T @ [?p] = T @ [(Keyed a, data (hd (queue (mk_view st qs (Keyed a)))))]"
        by (simp add: mk_view_Keyed_Some[OF ms])
    qed
    from Cons.IH[OF r, of "T @ [?p]"] obtain T' where
      st: "astep\<^sup>*\<^sup>* (mk_view st ?qs1, B, T @ [?p]) (mk_view st qs', B, (T @ [?p]) @ T')"
      and o: "out' = (out @ [data (hd (queue s))]) @ map snd T'"
      by blast
    from s1 st have "astep\<^sup>*\<^sup>* (mk_view st qs, B, T) (mk_view st qs', B, (T @ [?p]) @ T')"
      by (rule converse_rtranclp_into_rtranclp)
    then have "astep\<^sup>*\<^sup>* (mk_view st qs, B, T) (mk_view st qs', B, T @ (?p # T'))" by simp
    moreover have "out' = out @ map snd (?p # T')" using o by simp
    ultimately show ?thesis by blast
  next
    case False
    from Cons.prems False have "promote_keys ks qs out = Inr (qs', out')"
      by (simp add: promote_keys_Own[OF own] del: promote_keys.simps)
    then show ?thesis by (rule Cons.IH)
  qed
qed

lemma signal_single_asteps:
  assumes "signal_single sk st out = (st', out')" and b: "busy st"
  shows "busy st' \<and>
    (\<exists>T'. astep\<^sup>*\<^sup>* (mk_view st qs, B, T) (mk_view st' qs, B, T @ T') \<and> out' = out @ map snd T')"
proof (cases "matches_single sk st")
  case False
  then have "st' = st" "out' = out" using assms by (simp_all add: signal_single_unmatched)
  then show ?thesis using b by (intro conjI exI[of _ "[]"]) simp_all
next
  case True
  then have ne: "queue st \<noteq> []" by (auto simp: matches_single_def split: option.splits)
  with b have l: "locked st" by (simp add: busy_def)
  let ?s1 = "\<lparr>queue = tl (queue st), locked = False\<rparr>"
  have s1: "astep (mk_view st qs, B, T) (mk_view ?s1 qs, B, T)"
  proof (rule astep_release[where x = Global])
    show "queue (mk_view st qs Global) \<noteq> []" using ne by (simp add: mk_view_def)
    show "locked (mk_view st qs Global)" using l by (simp add: mk_view_def)
    show "mk_view ?s1 qs = (mk_view st qs)(Global := \<lparr>queue = tl (queue (mk_view st qs Global)), locked = False\<rparr>)"
      by (simp add: mk_view_Global) (simp add: mk_view_def)
  qed
  show ?thesis
  proof (cases "tl (queue st) \<noteq> []")
    case False
    then have "st' = ?s1" "out' = out" using assms True by (simp_all add: signal_single_matched)
    with s1 False show ?thesis by (intro conjI exI[of _ "[]"]) (simp_all add: busy_def)
  next
    case ne2: True
    let ?p = "(Global, data (hd (tl (queue st))))"
    from ne2 have r: "st' = \<lparr>queue = tl (queue st), locked = True\<rparr>" "out' = out @ [data (hd (tl (queue st)))]"
      using assms True by (simp_all add: signal_single_matched)
    have "astep (mk_view ?s1 qs, B, T) (mk_view st' qs, B, T @ [?p])"
    proof (rule astep_admit[where x = Global])
      show "\<not> locked (mk_view ?s1 qs Global)" "queue (mk_view ?s1 qs Global) \<noteq> []"
        using ne2 by (simp_all add: mk_view_def)
      show "mk_view st' qs = (mk_view ?s1 qs)(Global := (mk_view ?s1 qs Global)\<lparr>locked := True\<rparr>)"
        by (simp add: mk_view_Global r) (simp add: mk_view_def)
      show "T @ [?p] = T @ [(Global, data (hd (queue (mk_view ?s1 qs Global))))]"
        by (simp add: mk_view_def)
    qed
    with s1 have "astep\<^sup>*\<^sup>* (mk_view st qs, B, T) (mk_view st' qs, B, T @ [?p])" by auto
    then show ?thesis using r by (intro conjI exI[of _ "[?p]"]) (simp_all add: busy_def)
  qed
qed

lemma signal_multi_asteps:
  assumes "signal_multi sk qs out = Inr (qs', out')" and b: "busy_keys qs"
  shows "busy_keys qs' \<and>
    (\<exists>T'. astep\<^sup>*\<^sup>* (mk_view st qs, B, T) (mk_view st qs', B, T @ T') \<and> out' = out @ map snd T')"
proof (cases "matches_multi sk qs")
  case False
  then have "qs' = qs" "out' = out" using assms signal_multi_unmatched[OF False, of out] by auto
  then show ?thesis using b by (intro conjI exI[of _ "[]"]) simp_all
next
  case True
  from matches_multiE[OF this] obtain k s where sk: "selected sk = Some k"
    and ms: "map_of qs k = Some s" and ne: "queue s \<noteq> []"
    by blast
  from b ms ne have l: "locked s" by (auto simp: busy_keys_def busy_def)
  let ?s1 = "\<lparr>queue = tl (queue s), locked = False\<rparr>"
  let ?V1 = "(mk_view st qs)(Keyed k := ?s1)"
  have s1: "astep (mk_view st qs, B, T) (?V1, B, T)"
  proof (rule astep_release[where x = "Keyed k"])
    show "queue (mk_view st qs (Keyed k)) \<noteq> []" using ne by (simp add: mk_view_Keyed_Some[OF ms])
    show "locked (mk_view st qs (Keyed k))" using l by (simp add: mk_view_Keyed_Some[OF ms])
    show "?V1 = (mk_view st qs)(Keyed k := \<lparr>queue = tl (queue (mk_view st qs (Keyed k))), locked = False\<rparr>)"
      by (simp add: mk_view_Keyed_Some[OF ms])
  qed
  show ?thesis
  proof (cases "tl (queue s) \<noteq> []")
    case False
    then have r: "qs' = AList.delete k qs" "out' = out"
      using assms signal_multi_matched[OF sk ms ne, of out] by simp_all
    have bk: "busy_keys qs'" using b unfolding r busy_keys_def
      by (auto simp: delete_conv' split: if_splits)
    have "mk_view st qs' = ?V1" using False by (simp add: r mk_view_delete empty_state_def)
    with s1 bk show ?thesis using r by (intro conjI exI[of _ "[]"]) simp_all
  next
    case ne2: True
    let ?p = "(Keyed k, data (hd (tl (queue s))))"
    from ne2 have r: "qs' = AList.update k \<lparr>queue = tl (queue s), locked = True\<rparr> qs"
      "out' = out @ [data (hd (tl (queue s)))]"
      using assms signal_multi_matched[OF sk ms ne, of out] by simp_all
    have bk: "busy_keys qs'" using b unfolding r busy_keys_def
      by (auto simp: update_conv' busy_def split: if_splits)
    have "astep (?V1, B, T) (mk_view st qs', B, T @ [?p])"
    proof (rule astep_admit[where x = "Keyed k"])
      show "\<not> locked (?V1 (Keyed k))" "queue (?V1 (Keyed k)) \<noteq> []"
        using ne2 by simp_all
      show "mk_view st qs' = ?V1(Keyed k := (?V1 (Keyed k))\<lparr>locked := True\<rparr>)"
        by (simp add: r mk_view_update)
      show "T @ [?p] = T @ [(Keyed k, data (hd (queue (?V1 (Keyed k)))))]"
        by simp
    qed
    with s1 have "astep\<^sup>*\<^sup>* (mk_view st qs, B, T) (mk_view st qs', B, T @ [?p])" by auto
    then show ?thesis using r bk by (intro conjI exI[of _ "[?p]"]) simp_all
  qed
qed

lemma signals_single_asteps:
  "signals_single sks st out = (st', out') \<Longrightarrow> busy st \<Longrightarrow>
     \<exists>T'. astep\<^sup>*\<^sup>* (mk_view st qs, B, T) (mk_view st' qs, B, T @ T') \<and> out' = out @ map snd T'"
proof (induction sks arbitrary: st out T)
  case Nil
  then show ?case by (intro exI[of _ "[]"]) simp
next
  case (Cons sk sks)
  from Cons.prems obtain st1 out1 where h: "signal_single sk st out = (st1, out1)"
    and r: "signals_single sks st1 out1 = (st', out')"
    by (auto split: prod.splits)
  from signal_single_asteps[OF h Cons.prems(2), of qs B T] obtain T1 where
    b1: "busy st1"
    and a1: "astep\<^sup>*\<^sup>* (mk_view st qs, B, T) (mk_view st1 qs, B, T @ T1)" and o1: "out1 = out @ map snd T1"
    by blast
  from Cons.IH[OF r b1, of "T @ T1"] obtain T2 where
    a2: "astep\<^sup>*\<^sup>* (mk_view st1 qs, B, T @ T1) (mk_view st' qs, B, (T @ T1) @ T2)"
    and o2: "out' = out1 @ map snd T2"
    by blast
  from a1 a2 have "astep\<^sup>*\<^sup>* (mk_view st qs, B, T) (mk_view st' qs, B, T @ (T1 @ T2))" by simp
  moreover have "out' = out @ map snd (T1 @ T2)" using o1 o2 by simp
  ultimately show ?case by blast
qed

lemma signals_multi_asteps:
  "signals_multi sks qs out = Inr (qs', out') \<Longrightarrow> busy_keys qs \<Longrightarrow>
     \<exists>T'. astep\<^sup>*\<^sup>* (mk_view st qs, B, T) (mk_view st qs', B, T @ T') \<and> out' = out @ map snd T'"
proof (induction sks arbitrary: qs out T)
  case Nil
  then show ?case by (intro exI[of _ "[]"]) simp
next
  case (Cons sk sks)
  from Cons.prems obtain qs1 out1 where h: "signal_multi sk qs out = Inr (qs1, out1)"
    and r: "signals_multi sks qs1 out1 = Inr (qs', out')"
    by (auto split: sum.splits)
  from signal_multi_asteps[OF h Cons.prems(2), of st B T] obtain T1 where
    b1: "busy_keys qs1"
    and a1: "astep\<^sup>*\<^sup>* (mk_view st qs, B, T) (mk_view st qs1, B, T @ T1)" and o1: "out1 = out @ map snd T1"
    by blast
  from Cons.IH[OF r b1, of "T @ T1"] obtain T2 where
    a2: "astep\<^sup>*\<^sup>* (mk_view st qs1, B, T @ T1) (mk_view st qs', B, (T @ T1) @ T2)"
    and o2: "out' = out1 @ map snd T2"
    by blast
  from a1 a2 have "astep\<^sup>*\<^sup>* (mk_view st qs, B, T) (mk_view st qs', B, T @ (T1 @ T2))" by simp
  moreover have "out' = out @ map snd (T1 @ T2)" using o1 o2 by simp
  ultimately show ?case by blast
qed

lemma signals_multi_asteps_throw:
  "signals_multi sks qs out = Inl (e, qs', out') \<Longrightarrow> busy_keys qs \<Longrightarrow>
     \<exists>T'. astep\<^sup>*\<^sup>* (mk_view st qs, B, T) (mk_view st qs', B, T @ T') \<and> out' = out @ map snd T'"
proof (induction sks arbitrary: qs out T)
  case Nil
  then show ?case by simp
next
  case (Cons sk sks)
  show ?case
  proof (cases "signal_multi sk qs out")
    case (Inl e')
    with Cons.prems have "qs' = qs" "out' = out" by simp_all
    then show ?thesis by (intro exI[of _ "[]"]) simp
  next
    case (Inr r1)
    obtain qs1 out1 where r1: "r1 = (qs1, out1)" by (cases r1)
    with Inr Cons.prems have r: "signals_multi sks qs1 out1 = Inl (e, qs', out')" by simp
    from signal_multi_asteps[of sk qs out qs1 out1 st B T] Inr r1 Cons.prems(2) obtain T1 where
      b1: "busy_keys qs1"
      and a1: "astep\<^sup>*\<^sup>* (mk_view st qs, B, T) (mk_view st qs1, B, T @ T1)" and o1: "out1 = out @ map snd T1"
      by blast
    from Cons.IH[OF r b1, of "T @ T1"] obtain T2 where
      a2: "astep\<^sup>*\<^sup>* (mk_view st qs1, B, T @ T1) (mk_view st qs', B, (T @ T1) @ T2)"
      and o2: "out' = out1 @ map snd T2"
      by blast
    from a1 a2 have "astep\<^sup>*\<^sup>* (mk_view st qs, B, T) (mk_view st qs', B, T @ (T1 @ T2))" by simp
    moreover have "out' = out @ map snd (T1 @ T2)" using o1 o2 by simp
    ultimately show ?thesis by blast
  qed
qed

lemma view_single_result:
  "view (sd\<lparr>sd_queue := Some (queue st), sd_locked := Some (locked st)\<rparr>) = mk_view st (initial_queues sd)"
  by (simp add: view_def initial_single_def initial_queues_def KeyQueueState_eta)

lemma view_multi_result:
  "view (sd\<lparr>sd_queues := Some qs\<rparr>) = mk_view (initial_single sd) qs"
  by (simp add: view_def initial_single_def initial_queues_def)

lemma execute_asteps:
  assumes "execute m its sks sd = Inr (sd', out)"
  shows "\<exists>T'. astep\<^sup>*\<^sup>* (view sd, B, T)
           (view sd', (\<lambda>x. B x @ proj x (map (route m) its)), T @ T') \<and> out = map snd T'"
proof (cases m)
  case modeSingle
  let ?qs = "initial_queues sd"
  let ?B1 = "\<lambda>x. B x @ proj x (map (route m) its)"
  define st1 where "st1 = enqueue_single its (initial_single sd)"
  obtain st2 out2 where p: "promote_single st1 [] = (st2, out2)" by (cases "promote_single st1 []")
  obtain st3 out3 where s: "signals_single sks st2 out2 = (st3, out3)" by (cases "signals_single sks st2 out2")
  from assms modeSingle p s have res: "sd' = sd\<lparr>sd_queue := Some (queue st3), sd_locked := Some (locked st3)\<rparr>" "out = out3"
    by (simp_all add: execute_def st1_def)
  have a1: "astep\<^sup>*\<^sup>* (view sd, B, T) (mk_view st1 ?qs, ?B1, T)"
    unfolding view_def st1_def modeSingle by (rule enqueue_single_asteps)
  from promote_single_asteps[OF p, of ?qs ?B1 T] obtain T1 where
    a2: "astep\<^sup>*\<^sup>* (mk_view st1 ?qs, ?B1, T) (mk_view st2 ?qs, ?B1, T @ T1)" and o2: "out2 = map snd T1"
    by auto
  from signals_single_asteps[OF s promote_single_busy[OF p], of ?qs ?B1 "T @ T1"] obtain T2 where
    a3: "astep\<^sup>*\<^sup>* (mk_view st2 ?qs, ?B1, T @ T1) (mk_view st3 ?qs, ?B1, (T @ T1) @ T2)"
    and o3: "out3 = out2 @ map snd T2"
    by blast
  from a1 a2 a3 have "astep\<^sup>*\<^sup>* (view sd, B, T) (mk_view st3 ?qs, ?B1, T @ (T1 @ T2))" by simp
  moreover have "out = map snd (T1 @ T2)" using res o2 o3 by simp
  ultimately show ?thesis unfolding res view_single_result by blast
next
  case modeMulti
  let ?st = "initial_single sd"
  let ?B1 = "\<lambda>x. B x @ proj x (map (route m) its)"
  from assms modeMulti obtain qs1 qs2 out2 qs3 where
    e: "enqueue_multi its (initial_queues sd) = Inr qs1"
    and p: "promote_multi qs1 [] = Inr (qs2, out2)"
    and s: "signals_multi sks qs2 out2 = Inr (qs3, out)"
    and res: "sd' = sd\<lparr>sd_queues := Some qs3\<rparr>"
    by (auto simp: execute_def Let_def split: sum.splits prod.splits)
  have a1: "astep\<^sup>*\<^sup>* (view sd, B, T) (mk_view ?st qs1, ?B1, T)"
    unfolding view_def modeMulti using e by (rule enqueue_multi_asteps)
  from promote_keys_asteps[OF p[unfolded promote_multi_def], of ?st ?B1 T] obtain T1 where
    a2: "astep\<^sup>*\<^sup>* (mk_view ?st qs1, ?B1, T) (mk_view ?st qs2, ?B1, T @ T1)" and o2: "out2 = map snd T1"
    by auto
  from signals_multi_asteps[OF s promote_multi_busy[OF p], of ?st ?B1 "T @ T1"] obtain T2 where
    a3: "astep\<^sup>*\<^sup>* (mk_view ?st qs2, ?B1, T @ T1) (mk_view ?st qs3, ?B1, (T @ T1) @ T2)"
    and o3: "out = out2 @ map snd T2"
    by blast
  from a1 a2 a3 have "astep\<^sup>*\<^sup>* (view sd, B, T) (mk_view ?st qs3, ?B1, T @ (T1 @ T2))" by simp
  moreover have "out = map snd (T1 @ T2)" using o2 o3 by simp
  ultimately show ?thesis unfolding res view_multi_result by blast
qed

lemma execute_asteps_throw:
  assumes "execute m its sks sd = Inl (e, sd', out)"
  shows "\<exists>its' T'. prefix its' its \<and> astep\<^sup>*\<^sup>* (view sd, B, T)
           (view sd', (\<lambda>x. B x @ proj x (map (route m) its')), T @ T') \<and> out = map snd T'"
proof (cases m)
  case modeSingle
  with assms show ?thesis by (simp add: execute_def Let_def split: prod.splits)
next
  case modeMulti
  let ?st = "initial_single sd"
  show ?thesis
  proof (cases "enqueue_multi its (initial_queues sd)")
    case (Inl r)
    obtain e1 qs1 where r: "r = (e1, qs1)" by (cases r)
    with Inl assms modeMulti have res: "sd' = sd\<lparr>sd_queues := Some qs1\<rparr>" "out = []"
      by (simp_all add: execute_def)
    from enqueue_multi_asteps_throw[of its "initial_queues sd" e1 qs1 ?st B T] Inl r
    obtain its' where "prefix its' its" "astep\<^sup>*\<^sup>* (mk_view ?st (initial_queues sd), B, T)
       (mk_view ?st qs1, (\<lambda>x. B x @ proj x (map (route modeMulti) its')), T)"
      by blast
    then show ?thesis unfolding res view_multi_result modeMulti
      by (intro exI[of _ its'] exI[of _ "[]"]) (simp add: view_def)
  next
    case (Inr qs1)
    let ?B1 = "\<lambda>x. B x @ proj x (map (route m) its)"
    obtain qs2 out2 where p: "promote_multi qs1 [] = Inr (qs2, out2)"
      using promote_multi_ok[of qs1 "[]"] by blast
    from assms modeMulti Inr p obtain qs3 where
      s: "signals_multi sks qs2 out2 = Inl (e, qs3, out)"
      and res: "sd' = sd\<lparr>sd_queues := Some qs3\<rparr>"
      by (auto simp: execute_def Let_def split: sum.splits prod.splits)
    have a1: "astep\<^sup>*\<^sup>* (view sd, B, T) (mk_view ?st qs1, ?B1, T)"
      unfolding view_def modeMulti using Inr by (rule enqueue_multi_asteps)
    from promote_keys_asteps[OF p[unfolded promote_multi_def], of ?st ?B1 T] obtain T1 where
      a2: "astep\<^sup>*\<^sup>* (mk_view ?st qs1, ?B1, T) (mk_view ?st qs2, ?B1, T @ T1)"
      and o2: "out2 = map snd T1"
      by auto
    from signals_multi_asteps_throw[OF s promote_multi_busy[OF p], of ?st ?B1 "T @ T1"] obtain T2 where
      a3: "astep\<^sup>*\<^sup>* (mk_view ?st qs2, ?B1, T @ T1) (mk_view ?st qs3, ?B1, (T @ T1) @ T2)"
      and o3: "out = out2 @ map snd T2"
      by blast
    from a1 a2 a3 have "astep\<^sup>*\<^sup>* (view sd, B, T) (mk_view ?st qs3, ?B1, T @ (T1 @ T2))" by simp
    moreover have "out = map snd (T1 @ T2)" using o2 o3 by simp
    ultimately show ?thesis unfolding res view_multi_result
      by (intro exI[of _ its] exI[of _ "T1 @ T2"]) simp
  qed
qed

section \<open>The invariants of the queue events\<close>

lemma ainvI:
  "(\<And>x. \<exists>R. B x = R @ map data (queue (V x)) \<and> subseq (proj x T) (R @ holder (V x))) \<Longrightarrow> ainv (V, B, T)"
  by (simp add: ainv_def)

lemma ainvD:
  "ainv (V, B, T) \<Longrightarrow> \<exists>R. B x = R @ map data (queue (V x)) \<and> subseq (proj x T) (R @ holder (V x))"
  by (simp add: ainv_def)

lemma holder_subseq: "subseq (R @ holder s) (R @ map data (queue s))"
  by (cases "queue s") (auto simp: holder_def)

lemma holder_mem: "p \<in> set (holder s) \<Longrightarrow> locked s \<and> queue s \<noteq> [] \<and> p = data (hd (queue s))"
  by (cases "queue s") (auto simp: holder_def split: if_splits)

lemma ainv_proj_in: "ainv (V, B, T) \<Longrightarrow> set (proj x T) \<subseteq> set (B x)"
proof -
  assume a: "ainv (V, B, T)"
  from ainvD[OF a, of x] obtain R where
    R: "B x = R @ map data (queue (V x))" "subseq (proj x T) (R @ holder (V x))" by blast
  have "subseq (proj x T) (B x)"
    using R holder_subseq[of R "V x"] by (metis subseq_order.order_trans)
  then show ?thesis by (rule subseq_set_mono)
qed

lemma lock_ne_step:
  assumes "astep c c'" "lock_ne (fst c)"
  shows "lock_ne (fst c')"
  using assms by (cases rule: astep.cases) (auto simp: lock_ne_def)

lemma lock_ne_steps: "astep\<^sup>*\<^sup>* c c' \<Longrightarrow> lock_ne (fst c) \<Longrightarrow> lock_ne (fst c')"
  by (induction rule: rtranclp_induct) (auto intro: lock_ne_step)

lemma lock_emitted_step:
  assumes "astep c c'" "lock_emitted (fst c) (snd (snd c))"
  shows "lock_emitted (fst c') (snd (snd c'))"
  using assms by (cases rule: astep.cases) (auto simp: lock_emitted_def)

lemma lock_emitted_steps:
  "astep\<^sup>*\<^sup>* c c' \<Longrightarrow> lock_emitted (fst c) (snd (snd c)) \<Longrightarrow> lock_emitted (fst c') (snd (snd c'))"
  by (induction rule: rtranclp_induct) (auto intro: lock_emitted_step)

lemma holder_prefix: "prefix (R @ holder s) (R @ map data (queue s))"
  by (simp add: holder_def take_is_prefix)

lemma aexactI:
  "(\<And>x. \<exists>R. B x = R @ map data (queue (V x)) \<and> proj x T = R @ holder (V x)) \<Longrightarrow> aexact (V, B, T)"
  by (simp add: aexact_def)

lemma aexactD:
  "aexact (V, B, T) \<Longrightarrow> \<exists>R. B x = R @ map data (queue (V x)) \<and> proj x T = R @ holder (V x)"
  by (simp add: aexact_def)

lemma aexact_ainv: "aexact c \<Longrightarrow> ainv c"
  by (cases c) (auto simp: aexact_def ainv_def, metis subseq_order.order_refl)

lemma aexact_step:
  assumes "astep c c'" "aexact c" "lock_ne (fst c)"
  shows "aexact c'"
  using assms(1)
proof (cases rule: astep.cases)
  case (enq V B T x e)
  show ?thesis unfolding enq(2)
  proof (rule aexactI)
    fix y
    from aexactD[OF assms(2)[unfolded enq(1)], of y] obtain R where
      R: "B y = R @ map data (queue (V y))" "proj y T = R @ holder (V y)" by blast
    have h: "holder ((V x)\<lparr>queue := queue (V x) @ [e]\<rparr>) = holder (V x)"
      using assms(3) unfolding enq(1) by (cases "queue (V x)") (auto simp: holder_def lock_ne_def)
    show "\<exists>R. (B(x := B x @ [data e])) y = R @ map data (queue ((V(x := (V x)\<lparr>queue := queue (V x) @ [e]\<rparr>)) y)) \<and>
         proj y T = R @ holder ((V(x := (V x)\<lparr>queue := queue (V x) @ [e]\<rparr>)) y)"
      using R h by (intro exI[of _ R]) auto
  qed
next
  case (admit V x B T)
  show ?thesis unfolding admit(2)
  proof (rule aexactI)
    fix y
    from aexactD[OF assms(2)[unfolded admit(1)], of y] obtain R where
      R: "B y = R @ map data (queue (V y))" "proj y T = R @ holder (V y)" by blast
    have h: "holder ((V x)\<lparr>locked := True\<rparr>) = [data (hd (queue (V x)))]" "holder (V x) = []"
      using admit(3,4) by (cases "queue (V x)"; simp add: holder_def)+
    show "\<exists>R. B y = R @ map data (queue ((V(x := (V x)\<lparr>locked := True\<rparr>)) y)) \<and>
         proj y (T @ [(x, data (hd (queue (V x))))]) = R @ holder ((V(x := (V x)\<lparr>locked := True\<rparr>)) y)"
      using R h by (intro exI[of _ R]) auto
  qed
next
  case (release V x B T)
  show ?thesis unfolding release(2)
  proof (rule aexactI)
    fix y
    from aexactD[OF assms(2)[unfolded release(1)], of y] obtain R where
      R: "B y = R @ map data (queue (V y))" "proj y T = R @ holder (V y)" by blast
    let ?h = "data (hd (queue (V x)))"
    have q: "map data (queue (V x)) = ?h # map data (tl (queue (V x)))" and h: "holder (V x) = [?h]"
      using release(3,4) by (cases "queue (V x)"; simp add: holder_def)+
    show "\<exists>R. B y = R @ map data (queue ((V(x := \<lparr>queue = tl (queue (V x)), locked = False\<rparr>)) y)) \<and>
         proj y T = R @ holder ((V(x := \<lparr>queue = tl (queue (V x)), locked = False\<rparr>)) y)"
    proof (cases "y = x")
      case True
      then show ?thesis using R q h by (intro exI[of _ "R @ [?h]"]) (simp add: holder_def)
    next
      case False
      then show ?thesis using R by (intro exI[of _ R]) simp
    qed
  qed
qed

lemma aexact_steps:
  "astep\<^sup>*\<^sup>* c c' \<Longrightarrow> aexact c \<Longrightarrow> lock_ne (fst c) \<Longrightarrow> aexact c' \<and> lock_ne (fst c')"
  by (induction rule: rtranclp_induct) (auto intro: aexact_step lock_ne_step)

section \<open>The invariants along a run\<close>

lemma arrivals_Cons: "arrivals x (i # invs) = proj x (map (route (inv_mode i)) (inv_data i)) @ arrivals x invs"
  by (simp add: arrivals_def routed_def)

lemma execute_events:
  "\<exists>its' T'. prefix its' (inv_data i) \<and>
     astep\<^sup>*\<^sup>* (view sd, B, T)
       (view (state_after i sd), (\<lambda>x. B x @ proj x (map (route (inv_mode i)) its')), T @ T') \<and>
     pushed i sd = map snd T'"
proof (cases "execute (inv_mode i) (inv_data i) (inv_signals i) sd")
  case (Inr r)
  obtain sd1 out where r: "r = (sd1, out)" by (cases r)
  from execute_asteps[of "inv_mode i" "inv_data i" "inv_signals i" sd sd1 out B T] Inr r obtain T1 where
    "astep\<^sup>*\<^sup>* (view sd, B, T)
       (view sd1, (\<lambda>x. B x @ proj x (map (route (inv_mode i)) (inv_data i))), T @ T1)" "out = map snd T1"
    by blast
  then show ?thesis using Inr r
    by (intro exI[of _ "inv_data i"] exI[of _ T1]) (simp add: state_after_def pushed_def)
next
  case (Inl r)
  obtain e sd1 out where r: "r = (e, sd1, out)" by (cases r)
  from execute_asteps_throw[of "inv_mode i" "inv_data i" "inv_signals i" sd e sd1 out B T] Inl r
  obtain its' T1 where "prefix its' (inv_data i)"
    "astep\<^sup>*\<^sup>* (view sd, B, T)
       (view sd1, (\<lambda>x. B x @ proj x (map (route (inv_mode i)) its')), T @ T1)" "out = map snd T1"
    by blast
  then show ?thesis using Inl r
    by (intro exI[of _ its'] exI[of _ T1]) (simp add: state_after_def pushed_def)
qed

lemma run_ainv:
  "aexact (view sd, B, T) \<Longrightarrow> lock_ne (view sd) \<Longrightarrow> lock_emitted (view sd) T \<Longrightarrow>
     \<exists>B' T'. aexact (view (run_state sd invs), B', T') \<and> lock_emitted (view (run_state sd invs)) T' \<and>
       map snd T' = map snd T @ run_admitted sd invs \<and>
       (\<forall>x. \<exists>C. B' x = B x @ C \<and> subseq C (arrivals x invs))"
proof (induction invs arbitrary: sd B T)
  case Nil
  then show ?case by (intro exI[of _ B] exI[of _ T]) (simp add: arrivals_def routed_def)
next
  case (Cons i invs)
  let ?m = "inv_mode i"
  let ?sd1 = "state_after i sd"
  from execute_events[of i sd B T] obtain its' T1 where
    p: "prefix its' (inv_data i)"
    and a: "astep\<^sup>*\<^sup>* (view sd, B, T) (view ?sd1, (\<lambda>x. B x @ proj x (map (route ?m) its')), T @ T1)"
    and o: "pushed i sd = map snd T1"
    by blast
  let ?B1 = "\<lambda>x. B x @ proj x (map (route ?m) its')"
  from aexact_steps[OF a Cons.prems(1)] Cons.prems(2)
  have i1: "aexact (view ?sd1, ?B1, T @ T1)" and n1: "lock_ne (view ?sd1)" by simp_all
  from lock_emitted_steps[OF a] Cons.prems(3) have l1: "lock_emitted (view ?sd1) (T @ T1)" by simp
  from Cons.IH[OF i1 n1 l1] obtain B' T' where
    i: "aexact (view (run_state ?sd1 invs), B', T')"
    and l: "lock_emitted (view (run_state ?sd1 invs)) T'"
    and t: "map snd T' = map snd (T @ T1) @ run_admitted ?sd1 invs"
    and b: "\<forall>x. \<exists>C. B' x = ?B1 x @ C \<and> subseq C (arrivals x invs)"
    by blast
  have "\<forall>x. \<exists>C. B' x = B x @ C \<and> subseq C (arrivals x (i # invs))"
  proof
    fix x
    from b obtain C where "B' x = ?B1 x @ C" "subseq C (arrivals x invs)" by blast
    then show "\<exists>C. B' x = B x @ C \<and> subseq C (arrivals x (i # invs))"
      using prefix_proj[OF p, of x "route ?m"]
      by (intro exI[of _ "proj x (map (route ?m) its') @ C"])
         (simp add: arrivals_Cons list_emb_append_mono)
  qed
  then show ?case using i l t o by (intro exI[of _ B'] exI[of _ T']) simp
qed

lemma aexact_initial: "aexact (view initial, (\<lambda>x. []), [])"
  by (rule aexactI) (simp add: view_def initial_def initial_single_def initial_queues_def mk_view_def
      key_view_def empty_state_def holder_def split: qid.splits)

lemma lock_ne_initial: "lock_ne (view initial)"
  by (simp add: lock_ne_def view_def initial_def initial_single_def initial_queues_def mk_view_def
      key_view_def empty_state_def split: qid.splits)

lemma lock_emitted_initial: "lock_emitted (view initial) []"
  by (simp add: lock_emitted_def view_def initial_def initial_single_def initial_queues_def mk_view_def
      key_view_def empty_state_def split: qid.splits)

lemma run_history:
  "\<exists>B T. ainv (view (run_state initial invs), B, T) \<and> lock_emitted (view (run_state initial invs)) T \<and>
     map snd T = run_admitted initial invs \<and> (\<forall>x. subseq (B x) (arrivals x invs))"
proof -
  from run_ainv[OF aexact_initial lock_ne_initial lock_emitted_initial, of invs] obtain B T where
    "aexact (view (run_state initial invs), B, T)"
    "lock_emitted (view (run_state initial invs)) T"
    "map snd T = run_admitted initial invs"
    "\<forall>x. \<exists>C. B x = [] @ C \<and> subseq C (arrivals x invs)"
    by auto
  then show ?thesis by (intro exI[of _ B] exI[of _ T]) (auto dest: aexact_ainv)
qed

lemma run_output_subseq: "subseq (run_output sd invs) (run_admitted sd invs)"
proof (induction invs arbitrary: sd)
  case Nil
  then show ?case by simp
next
  case (Cons i invs)
  have "subseq (case returned i sd of None \<Rightarrow> [] | Some out \<Rightarrow> out) (pushed i sd)"
    by (auto simp: returned_def pushed_def split: sum.splits)
  with Cons.IH[of "state_after i sd"] show ?case by (simp add: list_emb_append_mono)
qed

lemma run_returns_output: "run_returns sd invs \<Longrightarrow> run_admitted sd invs = run_output sd invs"
proof (induction invs arbitrary: sd)
  case Nil
  then show ?case by simp
next
  case (Cons i invs)
  from Cons.prems have "returned i sd = Some (pushed i sd)"
    by (auto simp: returned_def pushed_def split: sum.splits)
  with Cons show ?case by simp
qed

lemma run_exact:
  "run_returns sd invs \<Longrightarrow> aexact (view sd, B, T) \<Longrightarrow> lock_ne (view sd) \<Longrightarrow>
     \<exists>T'. aexact (view (run_state sd invs), (\<lambda>x. B x @ arrivals x invs), T') \<and>
          map snd T' = map snd T @ run_output sd invs"
proof (induction invs arbitrary: sd B T)
  case Nil
  then show ?case by (intro exI[of _ T]) (simp add: arrivals_def routed_def)
next
  case (Cons i invs)
  let ?m = "inv_mode i"
  let ?sd1 = "state_after i sd"
  let ?B1 = "\<lambda>x. B x @ proj x (map (route ?m) (inv_data i))"
  from Cons.prems(1) obtain out where ret: "returned i sd = Some out"
    and rr: "run_returns ?sd1 invs" by auto
  from ret have ex: "execute ?m (inv_data i) (inv_signals i) sd = Inr (?sd1, out)"
    by (auto simp: returned_def state_after_def split: sum.splits prod.splits)
  from execute_asteps[OF ex, of B T] obtain T1 where
    a: "astep\<^sup>*\<^sup>* (view sd, B, T) (view ?sd1, ?B1, T @ T1)" and o: "out = map snd T1"
    by blast
  from aexact_steps[OF a Cons.prems(2)] Cons.prems(3)
  have e1: "aexact (view ?sd1, ?B1, T @ T1)" and l1: "lock_ne (view ?sd1)" by simp_all
  from Cons.IH[OF rr e1 l1] obtain T' where
    e: "aexact (view (run_state ?sd1 invs), (\<lambda>x. ?B1 x @ arrivals x invs), T')"
    and t: "map snd T' = map snd (T @ T1) @ run_output ?sd1 invs"
    by blast
  have "(\<lambda>x. ?B1 x @ arrivals x invs) = (\<lambda>x. B x @ arrivals x (i # invs))"
    by (rule ext) (simp add: arrivals_Cons)
  with e have "aexact (view (run_state sd (i # invs)), (\<lambda>x. B x @ arrivals x (i # invs)), T')"
    by simp
  then show ?case using t ret o by (intro exI[of _ T']) simp
qed

lemma returned_prefix:
  assumes r: "run_returns initial invs" and d: "distinct (map snd (routed invs))"
  shows "prefix (filter (\<lambda>p. p \<in> set (arrivals x invs)) (run_output initial invs)) (arrivals x invs)"
proof -
  let ?V = "view (run_state initial invs)"
  from run_exact[OF r aexact_initial lock_ne_initial] obtain T where
    e: "aexact (?V, (\<lambda>x. arrivals x invs), T)" and t: "map snd T = run_output initial invs"
    by auto
  have origin: "p \<in> set (arrivals y invs)" if "(y, p) \<in> set T" for y p
  proof -
    from aexactD[OF e, of y] obtain R where
      R: "arrivals y invs = R @ map data (queue (?V y))" "proj y T = R @ holder (?V y)" by blast
    from that have "p \<in> set (R @ holder (?V y))" using mem_proj[of y p T] R(2) by simp
    then show ?thesis using subseq_set_mono[OF holder_subseq[of R "?V y"]] R(1) by auto
  qed
  have "filter (\<lambda>p. p \<in> set (arrivals x invs)) (map snd T) = proj x T"
  proof (rule filter_proj)
    fix y p assume "(y, p) \<in> set T" "y \<noteq> x"
    then show "p \<notin> set (arrivals x invs)"
      using origin[of y p] proj_disjoint[OF d, of y x] by (auto simp: arrivals_def)
  next
    fix p assume "(x, p) \<in> set T"
    then show "p \<in> set (arrivals x invs)" by (rule origin)
  qed
  moreover from aexactD[OF e, of x] obtain R where
    "arrivals x invs = R @ map data (queue (?V x))" "proj x T = R @ holder (?V x)" by blast
  then have "prefix (proj x T) (arrivals x invs)" using holder_prefix[of R "?V x"] by simp
  ultimately show ?thesis using t by simp
qed

lemma emitted_origin:
  assumes i: "ainv (V, B, T)" and b: "\<And>x. subseq (B x) (arrivals x invs)" and m: "(y, p) \<in> set T"
  shows "p \<in> set (arrivals y invs)"
proof -
  from m have "p \<in> set (proj y T)" by (rule mem_proj)
  then have "p \<in> set (B y)" using ainv_proj_in[OF i, of y] by auto
  then show ?thesis using subseq_set_mono[OF b[of y]] by auto
qed

lemma admitted_of_queue:
  assumes d: "distinct (map snd (routed invs))"
  shows "\<exists>T. map snd T = run_admitted initial invs \<and>
           filter (\<lambda>p. p \<in> set (arrivals x invs)) (run_admitted initial invs) = proj x T \<and>
           subseq (proj x T) (arrivals x invs)"
proof -
  obtain B T where
    i: "ainv (view (run_state initial invs), B, T)"
    and t: "map snd T = run_admitted initial invs"
    and b: "\<And>x. subseq (B x) (arrivals x invs)"
    using run_history[of invs] by blast
  have "filter (\<lambda>p. p \<in> set (arrivals x invs)) (map snd T) = proj x T"
  proof (rule filter_proj)
    fix y p assume "(y, p) \<in> set T" "y \<noteq> x"
    then show "p \<notin> set (arrivals x invs)"
      using emitted_origin[OF i b, of y p] proj_disjoint[OF d, of y x] by (auto simp: arrivals_def)
  next
    fix p assume "(x, p) \<in> set T"
    then show "p \<in> set (arrivals x invs)" by (rule emitted_origin[OF i b])
  qed
  moreover have "subseq (proj x T) (arrivals x invs)"
  proof -
    from ainvD[OF i, of x] obtain R where
      R: "B x = R @ map data (queue (view (run_state initial invs) x))"
         "subseq (proj x T) (R @ holder (view (run_state initial invs) x))" by blast
    then have "subseq (proj x T) (B x)"
      using holder_subseq[of R "view (run_state initial invs) x"]
      by (metis subseq_order.order_trans)
    then show ?thesis using b[of x] by (metis subseq_order.order_trans)
  qed
  ultimately show ?thesis using t by (intro exI[of _ T]) simp
qed

lemma admitted_entry_is_head:
  assumes d: "distinct (map snd (routed invs))"
    and e: "e \<in> set (queue (view (run_state initial invs) x))"
    and o: "data e \<in> set (run_admitted initial invs)"
  shows "e = hd (queue (view (run_state initial invs) x)) \<and> locked (view (run_state initial invs) x)"
proof -
  let ?V = "view (run_state initial invs)"
  obtain B T where
    i: "ainv (?V, B, T)"
    and t: "map snd T = run_admitted initial invs"
    and b: "\<And>x. subseq (B x) (arrivals x invs)"
    using run_history[of invs] by blast
  from ainvD[OF i, of x] obtain R where
    R: "B x = R @ map data (queue (?V x))" "subseq (proj x T) (R @ holder (?V x))" by blast
  have dB: "distinct (B x)"
    using subseq_distinct[OF b[of x]] proj_distinct[OF d, of x] by (simp add: arrivals_def)
  then have dq: "distinct (map data (queue (?V x)))" and dis: "set R \<inter> set (map data (queue (?V x))) = {}"
    using R(1) by auto
  from e have inq: "data e \<in> set (map data (queue (?V x)))" by auto
  then have inBx: "data e \<in> set (arrivals x invs)"
    using R(1) subseq_set_mono[OF b[of x]] by auto
  from o t obtain y where y: "(y, data e) \<in> set T" by (metis (no_types, lifting) imageE list.set_map prod.collapse)
  have "y = x"
  proof (rule ccontr)
    assume "y \<noteq> x"
    from proj_disjoint[OF d this] emitted_origin[OF i b y] inBx show False
      by (auto simp: arrivals_def)
  qed
  with y have "data e \<in> set (proj x T)" by (simp add: mem_proj)
  then have "data e \<in> set (R @ holder (?V x))" using subseq_set_mono[OF R(2)] by auto
  with dis inq have "data e \<in> set (holder (?V x))" by auto
  from holder_mem[OF this] have l: "locked (?V x)" and ne: "queue (?V x) \<noteq> []"
    and h: "data e = data (hd (queue (?V x)))" by auto
  have "inj_on data (set (queue (?V x)))" using dq by (simp add: distinct_map)
  then have "e = hd (queue (?V x))" using h e ne by (auto dest: inj_onD)
  with l show ?thesis by simp
qed

lemma queue_distinct:
  assumes d: "distinct (map snd (routed invs))"
  shows "distinct (queue (view (run_state initial invs) x))"
proof -
  let ?q = "queue (view (run_state initial invs) x)"
  obtain B T where
    i: "ainv (view (run_state initial invs), B, T)"
    and b: "\<And>x. subseq (B x) (arrivals x invs)"
    using run_history[of invs] by blast
  from ainvD[OF i, of x] obtain R where R: "B x = R @ map data ?q" by blast
  have "distinct (B x)"
    using subseq_distinct[OF b[of x]] proj_distinct[OF d, of x] by (simp add: arrivals_def)
  then have "distinct (map data ?q)" using R by auto
  then show ?thesis by (simp add: distinct_map)
qed

lemma execute_lock_ne:
  assumes "lock_ne (view sd)"
  shows "lock_ne (view (state_after i sd))"
proof -
  from execute_events[of i sd "\<lambda>x. []" "[]"]
  obtain c' where "astep\<^sup>*\<^sup>* (view sd, (\<lambda>x. []), []) c'" "fst c' = view (state_after i sd)"
    by fastforce
  from lock_ne_steps[OF this(1)] assms this(2) show ?thesis by simp
qed

lemma run_lock_ne: "lock_ne (view sd) \<Longrightarrow> lock_ne (view (run_state sd invs))"
  by (induction invs arbitrary: sd) (auto intro: execute_lock_ne)

section \<open>Keys with an empty queue\<close>

lemma enqueue_multi_item_gc:
  "enqueue_multi_item it qs = Inr qs' \<Longrightarrow> gc_inv qs \<Longrightarrow> gc_inv qs'"
  by (auto simp: enqueue_multi_item_def Let_def gc_inv_def update_conv' split: property.splits if_splits)

lemma enqueue_multi_gc:
  "enqueue_multi its qs = Inr qs' \<Longrightarrow> gc_inv qs \<Longrightarrow> gc_inv qs'"
  by (induction its arbitrary: qs) (auto split: sum.splits dest: enqueue_multi_item_gc)

lemma enqueue_multi_gc_throw:
  "enqueue_multi its qs = Inl (e, qs') \<Longrightarrow> gc_inv qs \<Longrightarrow> gc_inv qs'"
  by (induction its arbitrary: qs) (auto split: sum.splits dest: enqueue_multi_item_gc)

lemma promote_keys_gc:
  assumes "promote_keys ks qs out = Inr (qs', out')" "gc_inv qs"
  shows "gc_inv qs'"
  unfolding gc_inv_def
proof (intro allI impI)
  fix k st assume "map_of qs' k = Some st"
  with promote_keys_state[OF assms(1), of k] obtain s0 where
    "map_of qs k = Some s0" "st = (if k \<in> set ks then promoted s0 else s0)"
    by (auto simp: map_option_case split: option.splits)
  then show "queue st \<noteq> []" using assms(2) by (auto simp: gc_inv_def promoted_def)
qed

lemma signal_multi_gc:
  "signal_multi sk qs out = Inr (qs', out') \<Longrightarrow> gc_inv qs \<Longrightarrow> gc_inv qs'"
  by (auto simp: signal_multi_def Let_def gc_inv_def update_conv' delete_conv'
      split: option.splits property.splits if_splits sum.splits)

lemma signals_multi_gc:
  "signals_multi sks qs out = Inr (qs', out') \<Longrightarrow> gc_inv qs \<Longrightarrow> gc_inv qs'"
  by (induction sks arbitrary: qs out) (auto split: sum.splits dest: signal_multi_gc)

lemma signals_multi_gc_throw:
  "signals_multi sks qs out = Inl (e, qs', out') \<Longrightarrow> gc_inv qs \<Longrightarrow> gc_inv qs'"
  by (induction sks arbitrary: qs out) (auto split: sum.splits dest: signal_multi_gc)

lemma execute_gc:
  assumes "gc_inv (initial_queues sd)"
  shows "gc_inv (initial_queues (state_after i sd))"
proof (cases "inv_mode i")
  case modeSingle
  then show ?thesis using assms
    by (simp add: state_after_def execute_def Let_def initial_queues_def split: prod.splits)
next
  case modeMulti
  show ?thesis
  proof (cases "enqueue_multi (inv_data i) (initial_queues sd)")
    case (Inl r)
    obtain e qs1 where r: "r = (e, qs1)" by (cases r)
    from enqueue_multi_gc_throw[OF Inl[unfolded r] assms] show ?thesis
      using Inl r modeMulti by (simp add: state_after_def execute_def initial_queues_def)
  next
    case (Inr qs1)
    from enqueue_multi_gc[OF Inr assms] have g1: "gc_inv qs1" .
    obtain qs2 out2 where p: "promote_multi qs1 [] = Inr (qs2, out2)"
      using promote_multi_ok[of qs1 "[]"] by blast
    from promote_keys_gc[OF p[unfolded promote_multi_def] g1] have g2: "gc_inv qs2" .
    show ?thesis
    proof (cases "signals_multi (inv_signals i) qs2 out2")
      case (Inl r)
      obtain e qs3 out3 where r: "r = (e, qs3, out3)" by (cases r)
      from signals_multi_gc_throw[OF Inl[unfolded r] g2] show ?thesis
        using Inl r Inr p modeMulti by (simp add: state_after_def execute_def initial_queues_def)
    next
      case Inr2: (Inr r)
      obtain qs3 out3 where r: "r = (qs3, out3)" by (cases r)
      from signals_multi_gc[OF Inr2[unfolded r] g2] show ?thesis
        using Inr2 r Inr p modeMulti by (simp add: state_after_def execute_def initial_queues_def)
    qed
  qed
qed

lemma run_gc: "gc_inv (initial_queues sd) \<Longrightarrow> gc_inv (initial_queues (run_state sd invs))"
  by (induction invs arbitrary: sd) (auto intro: execute_gc)

lemma gc_initial: "gc_inv (initial_queues initial)"
  by (simp add: gc_inv_def initial_queues_def initial_def)

section \<open>Each key once\<close>










section \<open>What is pushed and what is returned\<close>

text \<open>
  A locked queue is non-empty and the payload of its head has been pushed to the
  \<open>output\<close> array of an invocation; the pushes are the returned admissions when every
  invocation has returned.
\<close>

lemma run_locked_head_pushed:
  "(locked (view (run_state initial invs) x) \<longrightarrow>
      queue (view (run_state initial invs) x) \<noteq> [] \<and>
      data (hd (queue (view (run_state initial invs) x))) \<in> set (run_admitted initial invs)) \<and>
   (run_returns initial invs \<longrightarrow> run_admitted initial invs = run_output initial invs)"
proof (intro impI conjI)
  assume l: "locked (view (run_state initial invs) x)"
  from run_lock_ne[OF lock_ne_initial, of invs] l
  show "queue (view (run_state initial invs) x) \<noteq> []" by (simp add: lock_ne_def)
  from run_history[of invs] obtain T where
    le: "lock_emitted (view (run_state initial invs)) T" and eq: "map snd T = run_admitted initial invs"
    by blast
  from le l have "(x, data (hd (queue (view (run_state initial invs) x)))) \<in> set T"
    by (simp add: lock_emitted_def)
  then have "data (hd (queue (view (run_state initial invs) x))) \<in> set (map snd T)" by force
  then show "data (hd (queue (view (run_state initial invs) x))) \<in> set (run_admitted initial invs)"
    by (simp only: eq)
next
  assume "run_returns initial invs"
  then show "run_admitted initial invs = run_output initial invs" by (rule run_returns_output)
qed

text \<open>
  The \<open>output\<close> of an invocation that returns: the admissions of the promotion phase,
  then those of the signals, in the order of the signal batch.
\<close>

lemma execute_output_order:
  "(\<exists>sd'. execute modeSingle its sks sd =
      Inr (sd', snd (promote_single (enqueue_single its (initial_single sd)) []) @
                concat (release_admissions_single sks
                  (fst (promote_single (enqueue_single its (initial_single sd)) []))))) \<and>
   (execute modeMulti its sks sd = Inr (sd2, out) \<longrightarrow>
      (\<exists>qs1 qs2 promotions. enqueue_multi its (initial_queues sd) = Inr qs1 \<and>
         promote_multi qs1 [] = Inr (qs2, promotions) \<and>
         out = promotions @ concat (release_admissions_multi sks qs2)))"
proof (intro conjI impI)
  obtain st2 out2 where p: "promote_single (enqueue_single its (initial_single sd)) [] = (st2, out2)"
    by (cases "promote_single (enqueue_single its (initial_single sd)) []")
  obtain st3 out3 where s: "signals_single sks st2 out2 = (st3, out3)"
    by (cases "signals_single sks st2 out2")
  from signals_single_acc[of sks st2 out2] s
  have "out3 = out2 @ concat (release_admissions_single sks st2)" by simp
  then show "\<exists>sd'. execute modeSingle its sks sd =
      Inr (sd', snd (promote_single (enqueue_single its (initial_single sd)) []) @
                concat (release_admissions_single sks
                  (fst (promote_single (enqueue_single its (initial_single sd)) []))))"
    using p s by (simp add: execute_def)
next
  assume "execute modeMulti its sks sd = Inr (sd2, out)"
  then obtain qs1 qs2 out2 qs3 where
    e: "enqueue_multi its (initial_queues sd) = Inr qs1"
    and p: "promote_multi qs1 [] = Inr (qs2, out2)"
    and s: "signals_multi sks qs2 out2 = Inr (qs3, out)"
    by (auto simp: execute_def Let_def split: sum.splits prod.splits)
  from signals_multi_acc[OF s] e p
  show "\<exists>qs1 qs2 promotions. enqueue_multi its (initial_queues sd) = Inr qs1 \<and>
         promote_multi qs1 [] = Inr (qs2, promotions) \<and>
         out = promotions @ concat (release_admissions_multi sks qs2)"
    by blast
qed

section \<open>The claims\<close>

lemmas run_defs =
  scenario_single_def scenario_multi_def arrival_def entry_def initial_def
  state_after_def returned_def pushed_def execute_def initial_single_def initial_queues_def
  new_entry_def promote_single_def signal_single_def
  enqueue_multi_item_def get_property_def object_prototype_keys_def
  promote_multi_def object_keys_def is_array_index_def is_digit_def index_value_def
  digit_value_def
  signal_multi_def to_property_key_def selected_def routed_def route_def arrivals_def proj_def
  view_def mk_view_def key_view_def empty_state_def Let_def

text \<open>
  C1 (FIFO). Along any sequence of invocations from the empty static data, in either
  mode and also when the modes alternate, the admissions of one queue come out in the
  order in which its entries arrived: the returned payloads that belong to queue \<open>x\<close>
  form a subsequence of the payloads that arrived for \<open>x\<close>, so no payload is returned
  before the payload of an entry that arrived ahead of it in the same queue. When every
  invocation returns its output, they form a prefix of the arrivals: nobody is passed
  over. Payloads identify entries, so the arriving payloads are taken to be pairwise
  distinct.
\<close>

theorem fifo_order:
  assumes d: "distinct (map snd (routed invs))"
  shows "subseq (filter (\<lambda>p. p \<in> set (arrivals x invs)) (run_output initial invs)) (arrivals x invs) \<and>
    (run_returns initial invs \<longrightarrow>
       prefix (filter (\<lambda>p. p \<in> set (arrivals x invs)) (run_output initial invs)) (arrivals x invs))"
proof
  from admitted_of_queue[OF d, of x] obtain T where
    f: "filter (\<lambda>p. p \<in> set (arrivals x invs)) (run_admitted initial invs) = proj x T"
    and s: "subseq (proj x T) (arrivals x invs)"
    by blast
  have "subseq (filter (\<lambda>p. p \<in> set (arrivals x invs)) (run_output initial invs))
          (filter (\<lambda>p. p \<in> set (arrivals x invs)) (run_admitted initial invs))"
    by (rule subseq_filter) (rule run_output_subseq)
  with f s show "subseq (filter (\<lambda>p. p \<in> set (arrivals x invs)) (run_output initial invs))
      (arrivals x invs)"
    by (metis subseq_order.order_trans)
  show "run_returns initial invs \<longrightarrow>
       prefix (filter (\<lambda>p. p \<in> set (arrivals x invs)) (run_output initial invs)) (arrivals x invs)"
    using returned_prefix[OF _ d] by blast
qed

theorem fifo_order_witness:
  "arrivals (Keyed ''a'') scenario_multi = [1, 3] \<and>
   run_output initial scenario_multi = [1, 2, 3] \<and>
   run_returns initial scenario_multi \<and>
   subseq (filter (\<lambda>p. p \<in> set (arrivals (Keyed ''a'') scenario_multi))
             (run_output initial scenario_multi))
          (arrivals (Keyed ''a'') scenario_multi) \<and>
   prefix (filter (\<lambda>p. p \<in> set (arrivals (Keyed ''a'') scenario_multi))
             (run_output initial scenario_multi))
          (arrivals (Keyed ''a'') scenario_multi)"
proof -
  have d: "distinct (map snd (routed scenario_multi))"
    by (simp add: run_defs)
  have r: "run_returns initial scenario_multi"
    by (simp add: run_defs)
  have "arrivals (Keyed ''a'') scenario_multi = [1, 3]"
    by (simp add: run_defs)
  moreover have "run_output initial scenario_multi = [1, 2, 3]"
    by (simp add: run_defs)
  ultimately show ?thesis using fifo_order[OF d, of "Keyed ''a''"] r by simp
qed

text \<open>
  C2. In single mode a release signal whose key is present and does not equal the key of
  the head entry changes neither the queue nor the locked flag and adds nothing to the
  output. The key of an entry is a string; a signal key that is no string equals none.
\<close>

theorem single_mismatch_ignored:
  "queue st \<noteq> [] \<Longrightarrow> sk \<noteq> Some (JString (key (hd (queue st)))) \<Longrightarrow>
   signal_single sk st out = (st, out)"
  by (auto simp: signal_single_def split: option.splits)

theorem single_mismatch_ignored_witness:
  "signal_single (Some (JString ''k1'')) \<lparr>queue = [entry ''k2'' 2], locked = True\<rparr> [1, 2] =
     (\<lparr>queue = [entry ''k2'' 2], locked = True\<rparr>, [1, 2]) \<and>
   signal_single (Some (JNumber ''2'')) \<lparr>queue = [entry ''2'' 2], locked = True\<rparr> [1, 2] =
     (\<lparr>queue = [entry ''2'' 2], locked = True\<rparr>, [1, 2])"
  using single_mismatch_ignored[of "\<lparr>queue = [entry ''k2'' 2], locked = True\<rparr>"
      "Some (JString ''k1'')" "[1, 2]"]
    single_mismatch_ignored[of "\<lparr>queue = [entry ''2'' 2], locked = True\<rparr>"
      "Some (JNumber ''2'')" "[1, 2]"]
  by (simp add: entry_def)

text \<open>
  C3, as amended. A release signal that is not matched (no key, a falsy key such as the
  empty string; in single mode an empty queue or a head whose key is not the signal's;
  in multi mode a key that selects no queue of the mapping, or an empty one) adds
  nothing to the output and leaves every queue as it is: in single mode the state and
  the output are unchanged, in multi mode they are unchanged whether the iteration
  completes or throws. A matched signal removes the head, and a repetition of a signal
  is matched again whenever the queue it names still has entries (and, in single mode,
  the new head carries the same key): the code keeps no record of the signals it has
  processed.
\<close>

theorem unmatched_signal_noop:
  "(signal_single sk st out = (st, out) \<longleftrightarrow> \<not> matches_single sk st) \<and>
   (matches_single sk st \<longrightarrow> queue (fst (signal_single sk st out)) = tl (queue st)) \<and>
   (\<not> matches_multi sk qs \<longrightarrow>
      signals_multi [sk] qs out = Inr (qs, out) \<or>
      signals_multi [sk] qs out = Inl (TypeError, qs, out)) \<and>
   (matches_multi sk qs \<longrightarrow>
      (\<exists>k qs1 out1. selected sk = Some k \<and> signals_multi [sk] qs out = Inr (qs1, out1) \<and>
         qs1 \<noteq> qs \<and> queue (key_view qs1 k) = tl (queue (key_view qs k))))"
proof -
  have a: "signal_single sk st out = (st, out) \<longleftrightarrow> \<not> matches_single sk st"
    by (rule signal_single_noop_iff)
  have b: "queue (fst (signal_single sk st out)) = tl (queue st)" if "matches_single sk st"
    using that by (simp add: signal_single_matched)
  have c: "signals_multi [sk] qs out = Inr (qs, out) \<or>
      signals_multi [sk] qs out = Inl (TypeError, qs, out)"
    if "\<not> matches_multi sk qs"
    using signal_multi_unmatched[OF that, of out] by auto
  have d: "\<exists>k qs1 out1. selected sk = Some k \<and> signals_multi [sk] qs out = Inr (qs1, out1) \<and>
         qs1 \<noteq> qs \<and> queue (key_view qs1 k) = tl (queue (key_view qs k))"
    if m: "matches_multi sk qs"
  proof -
    from matches_multiE[OF m] obtain k s where k: "selected sk = Some k"
      and ms: "map_of qs k = Some s" and ne: "queue s \<noteq> []"
      by blast
    from signal_multi_changes[OF m, of out] obtain qs1 out1 where
      r: "signal_multi sk qs out = Inr (qs1, out1)" "qs1 \<noteq> qs" by blast
    have "queue (key_view qs1 k) = tl (queue (key_view qs k))"
      using r(1) signal_multi_matched[OF k ms ne, of out] ms
      by (auto simp: key_view_def update_conv' delete_conv' empty_state_def split: if_splits)
    moreover from r(1) have "signals_multi [sk] qs out = Inr (qs1, out1)" by simp
    ultimately show ?thesis using k r(2) by blast
  qed
  from a b c d show ?thesis by blast
qed

theorem unmatched_signal_noop_witness:
  "\<not> matches_single (Some (JString ''k1'')) \<lparr>queue = [entry ''k2'' 2], locked = True\<rparr> \<and>
   signal_single (Some (JString ''k1'')) \<lparr>queue = [entry ''k2'' 2], locked = True\<rparr> [] =
     (\<lparr>queue = [entry ''k2'' 2], locked = True\<rparr>, []) \<and>
   matches_single (Some (JString ''k2'')) \<lparr>queue = [entry ''k2'' 2], locked = True\<rparr> \<and>
   queue (fst (signal_single (Some (JString ''k2'')) \<lparr>queue = [entry ''k2'' 2], locked = True\<rparr> [])) = [] \<and>
   \<not> matches_multi (Some (JString ''a'')) [(''b'', \<lparr>queue = [entry ''b'' 2], locked = True\<rparr>)] \<and>
   signals_multi [Some (JString ''a'')] [(''b'', \<lparr>queue = [entry ''b'' 2], locked = True\<rparr>)] [] =
     Inr ([(''b'', \<lparr>queue = [entry ''b'' 2], locked = True\<rparr>)], []) \<and>
   \<not> matches_multi (Some (JString ''toString'')) [(''b'', \<lparr>queue = [entry ''b'' 2], locked = True\<rparr>)] \<and>
   signals_multi [Some (JString ''toString'')] [(''b'', \<lparr>queue = [entry ''b'' 2], locked = True\<rparr>)] [] =
     Inl (TypeError, [(''b'', \<lparr>queue = [entry ''b'' 2], locked = True\<rparr>)], []) \<and>
   matches_multi (Some (JString ''b'')) [(''b'', \<lparr>queue = [entry ''b'' 2], locked = True\<rparr>)] \<and>
   signals_multi [Some (JString ''b'')] [(''b'', \<lparr>queue = [entry ''b'' 2], locked = True\<rparr>)] [] =
     Inr ([], [])"
proof -
  let ?st = "\<lparr>queue = [entry ''k2'' 2], locked = True\<rparr>"
  let ?qs = "[(''b'', \<lparr>queue = [entry ''b'' 2], locked = True\<rparr>)]"
  have u1: "\<not> matches_single (Some (JString ''k1'')) ?st" by (simp add: matches_single_def entry_def)
  have m1: "matches_single (Some (JString ''k2'')) ?st" by (simp add: matches_single_def entry_def)
  have u2: "\<not> matches_multi (Some (JString ''a'')) ?qs"
    by (simp add: matches_multi_def selected_simps)
  have u3: "\<not> matches_multi (Some (JString ''toString'')) ?qs"
    by (simp add: matches_multi_def selected_simps)
  have m2: "matches_multi (Some (JString ''b'')) ?qs"
    by (simp add: matches_multi_def selected_simps)
  have n2: "signals_multi [Some (JString ''a'')] ?qs [] \<noteq> Inl (TypeError, ?qs, [])"
    by (simp add: signal_multi_def to_property_key_def get_property_def object_prototype_keys_def)
  have n3: "signals_multi [Some (JString ''toString'')] ?qs [] \<noteq> Inr (?qs, [])"
    by (simp add: signal_multi_def to_property_key_def get_property_def object_prototype_keys_def)
  have r4: "signals_multi [Some (JString ''b'')] ?qs [] = Inr ([], [])"
    by (simp add: signal_multi_def to_property_key_def get_property_def entry_def)
  from unmatched_signal_noop[where sk = "Some (JString ''k1'')" and st = ?st and out = "[]"] u1
  have s1: "signal_single (Some (JString ''k1'')) ?st [] = (?st, [])" by blast
  from unmatched_signal_noop[where sk = "Some (JString ''k2'')" and st = ?st and out = "[]"] m1
  have s2: "queue (fst (signal_single (Some (JString ''k2'')) ?st [])) = []" by simp
  from unmatched_signal_noop[where sk = "Some (JString ''a'')" and qs = ?qs and out = "[]"] u2 n2
  have s3: "signals_multi [Some (JString ''a'')] ?qs [] = Inr (?qs, [])" by blast
  from unmatched_signal_noop[where sk = "Some (JString ''toString'')" and qs = ?qs and out = "[]"] u3 n3
  have s4: "signals_multi [Some (JString ''toString'')] ?qs [] = Inl (TypeError, ?qs, [])" by blast
  from s1 s2 s3 s4 u1 m1 u2 u3 m2 r4 show ?thesis by simp
qed

text \<open>
  C3 as it was claimed fails: the same release signal sent a second time, after the head
  has advanced, is processed like the first. In multi mode, with three entries under
  the key \<open>a\<close>, one signal \<open>a\<close> admits the second entry, and the batch with the signal
  repeated also releases the second entry and admits the third.
\<close>

theorem duplicate_signal_counterexample:
  "execute modeMulti [arrival ''a'' 1, arrival ''a'' 2, arrival ''a'' 3] [Some (JString ''a'')] initial =
     Inr (\<lparr>sd_queue = None, sd_locked = None,
           sd_queues = Some [(''a'', \<lparr>queue = [entry ''a'' 2, entry ''a'' 3], locked = True\<rparr>)]\<rparr>,
          [1, 2]) \<and>
   execute modeMulti [arrival ''a'' 1, arrival ''a'' 2, arrival ''a'' 3] [Some (JString ''a''), Some (JString ''a'')] initial =
     Inr (\<lparr>sd_queue = None, sd_locked = None,
           sd_queues = Some [(''a'', \<lparr>queue = [entry ''a'' 3], locked = True\<rparr>)]\<rparr>,
          [1, 2, 3])"
  by (simp add: run_defs)

text \<open>
  C4 (at most one holder). After any sequence of invocations from the empty static data,
  every queue holds at most one entry whose payload has been returned as an admission
  and that no release has removed; such an entry is the head of its queue, and the queue
  is locked. Payloads identify entries, so the arriving payloads are taken to be pairwise
  distinct.
\<close>

theorem one_holder:
  assumes d: "distinct (map snd (routed invs))"
  shows "length (filter (\<lambda>e. data e \<in> set (run_output initial invs))
           (queue (view (run_state initial invs) x))) \<le> 1 \<and>
         (\<forall>e \<in> set (queue (view (run_state initial invs) x)).
            data e \<in> set (run_output initial invs) \<longrightarrow>
            e = hd (queue (view (run_state initial invs) x)) \<and> locked (view (run_state initial invs) x))"
proof -
  let ?q = "queue (view (run_state initial invs) x)"
  let ?P = "\<lambda>e. data e \<in> set (run_output initial invs)"
  have sub: "set (run_output initial invs) \<subseteq> set (run_admitted initial invs)"
    by (rule subseq_set_mono) (rule run_output_subseq)
  have h: "e = hd ?q \<and> locked (view (run_state initial invs) x)" if "e \<in> set ?q" "?P e" for e
    using admitted_entry_is_head[OF d that(1)] that(2) sub by blast
  have "distinct (filter ?P ?q)" using queue_distinct[OF d, of x] by simp
  moreover have "set (filter ?P ?q) \<subseteq> {hd ?q}" using h by auto
  ultimately have "length (filter ?P ?q) \<le> 1" by (rule length_le_one)
  with h show ?thesis by blast
qed

theorem one_holder_witness:
  "queue (view (run_state initial scenario_single) Global) = [entry ''k2'' 2] \<and>
   run_output initial scenario_single = [1, 2] \<and>
   length (filter (\<lambda>e. data e \<in> set (run_output initial scenario_single))
     (queue (view (run_state initial scenario_single) Global))) \<le> 1 \<and>
   locked (view (run_state initial scenario_single) Global)"
proof -
  have d: "distinct (map snd (routed scenario_single))"
    by (simp add: run_defs)
  have q: "queue (view (run_state initial scenario_single) Global) = [entry ''k2'' 2]"
    by (simp add: run_defs)
  have o: "run_output initial scenario_single = [1, 2]"
    by (simp add: run_defs)
  have "entry ''k2'' 2 \<in> set (queue (view (run_state initial scenario_single) Global))"
    "data (entry ''k2'' 2) \<in> set (run_output initial scenario_single)"
    by (simp_all add: q o entry_def)
  with one_holder[OF d, of Global] q o show ?thesis by blast
qed



text \<open>
  C6 (frame of a multi mode release). In multi mode, processing a release signal for the
  key \<open>k\<close> leaves the entry of every other key \<open>k'\<close> of the mapping as it was: the same
  \<open>KeyQueueState\<close> if it was present, absent if it was absent. This holds when the
  signal is processed to its end and when its processing throws. The key of a signal
  is the property name that \<open>selected\<close> gives: a non-empty string is its own name
  (\<open>selected (Some (JString k)) = Some k\<close>), and a signal that selects nothing leaves
  every key as it was.
\<close>

theorem multi_release_frame:
  "selected sk \<noteq> Some k' \<Longrightarrow>
     (case signals_multi [sk] qs out of
        Inl (e, qs', out') \<Rightarrow> qs' = qs
      | Inr (qs', out') \<Rightarrow> map_of qs' k' = map_of qs k')"
  by (auto simp: signal_multi_def selected_def Let_def update_conv' delete_conv'
      split: option.splits if_splits property.splits sum.splits)

theorem multi_release_frame_witness:
  "signals_multi [Some (JString ''a'')]
     [(''a'', \<lparr>queue = [entry ''a'' 1], locked = True\<rparr>),
      (''b'', \<lparr>queue = [entry ''b'' 2], locked = True\<rparr>)] [] =
     Inr ([(''b'', \<lparr>queue = [entry ''b'' 2], locked = True\<rparr>)], []) \<and>
   map_of [(''b'', \<lparr>queue = [entry ''b'' 2], locked = True\<rparr>)] ''b'' =
   map_of [(''a'', \<lparr>queue = [entry ''a'' 1], locked = True\<rparr>),
           (''b'', \<lparr>queue = [entry ''b'' 2], locked = True\<rparr>)] ''b''"
proof -
  let ?qs = "[(''a'', \<lparr>queue = [entry ''a'' 1], locked = True\<rparr>),
      (''b'', \<lparr>queue = [entry ''b'' 2], locked = True\<rparr>)]"
  let ?qs' = "[(''b'', \<lparr>queue = [entry ''b'' 2], locked = True\<rparr>)]"
  have r: "signals_multi [Some (JString ''a'')] ?qs [] = Inr (?qs', [])"
    by (simp add: signal_multi_def to_property_key_def get_property_def)
  have "selected (Some (JString ''a'')) \<noteq> Some ''b''" by (simp add: selected_simps)
  from multi_release_frame[OF this, of ?qs "[]"] r show ?thesis by simp
qed

text \<open>
  C7 (garbage collection). In multi mode a release signal that takes the last entry of
  a key's queue deletes the key from the mapping in the same step; and after any
  sequence of invocations from the empty static data, every key of the mapping has a
  non-empty queue.
\<close>

theorem garbage_collection:
  "(selected sk = Some k \<longrightarrow> map_of qs k = Some st \<longrightarrow> length (queue st) = 1 \<longrightarrow>
      (\<exists>qs'. signal_multi sk qs out = Inr (qs', out) \<and> map_of qs' k = None)) \<and>
   (sd_queues (run_state initial invs) = Some qs2 \<longrightarrow> map_of qs2 k2 = Some st2 \<longrightarrow> queue st2 \<noteq> [])"
proof (intro conjI impI)
  assume "selected sk = Some k" "map_of qs k = Some st" "length (queue st) = 1"
  moreover from this have "queue st \<noteq> []" "tl (queue st) = []" by (cases "queue st"; simp)+
  ultimately show "\<exists>qs'. signal_multi sk qs out = Inr (qs', out) \<and> map_of qs' k = None"
    by (simp add: signal_multi_matched[of sk k qs st] delete_conv')
next
  assume "sd_queues (run_state initial invs) = Some qs2" "map_of qs2 k2 = Some st2"
  with run_gc[OF gc_initial, of invs] show "queue st2 \<noteq> []"
    by (simp add: gc_inv_def initial_queues_def)
qed

theorem garbage_collection_witness:
  "signal_multi (Some (JString ''b'')) [(''b'', \<lparr>queue = [entry ''b'' 2], locked = True\<rparr>)] [] =
     Inr ([], []) \<and>
   sd_queues (run_state initial scenario_multi) =
     Some [(''a'', \<lparr>queue = [entry ''a'' 3], locked = True\<rparr>),
           (''b'', \<lparr>queue = [entry ''b'' 2], locked = True\<rparr>)] \<and>
   queue \<lparr>queue = [entry ''a'' 3], locked = True\<rparr> \<noteq> []"
proof -
  let ?qs = "[(''b'', \<lparr>queue = [entry ''b'' 2], locked = True\<rparr>)]"
  let ?st = "\<lparr>queue = [entry ''b'' 2], locked = True\<rparr>"
  let ?qs2 = "[(''a'', \<lparr>queue = [entry ''a'' 3], locked = True\<rparr>),
           (''b'', \<lparr>queue = [entry ''b'' 2], locked = True\<rparr>)]"
  let ?st2 = "\<lparr>queue = [entry ''a'' 3], locked = True\<rparr>"
  have s: "sd_queues (run_state initial scenario_multi) = Some ?qs2"
    by (simp add: run_defs)
  have m: "map_of ?qs2 ''a'' = Some ?st2" by simp
  have sel: "selected (Some (JString ''b'')) = Some ''b''" by (simp add: selected_simps)
  from garbage_collection[of "Some (JString ''b'')" "''b''" ?qs ?st "[]" scenario_multi ?qs2 "''a''" ?st2]
    s m sel
  have "queue ?st2 \<noteq> []"
    and "\<exists>qs'. signal_multi (Some (JString ''b'')) ?qs [] = Inr (qs', []) \<and> map_of qs' ''b'' = None"
    by simp_all
  moreover have "signal_multi (Some (JString ''b'')) ?qs [] = Inr ([], [])"
    by (simp add: signal_multi_def to_property_key_def get_property_def)
  ultimately show ?thesis using s by simp
qed

text \<open>
  C8 (locked implies a holder at the head) does not hold of the code. A multi mode
  invocation on the empty static data with two arrivals under the key \<open>a\<close> and the
  signals \<open>a\<close>, \<open>toString\<close>: the first signal releases the first entry, locks the queue
  on the second and pushes its payload; for the second signal
  \<^verbatim>\<open>staticData.queues!["toString"]\<close> is the function that every object inherits,
  \<^verbatim>\<open>state.queue.length\<close> throws, and \<^verbatim>\<open>return [output]\<close> is not reached. The static data
  keeps the queue \<open>a\<close> locked with the second entry at its head, and no admission of
  that entry has been returned.
\<close>

theorem locked_head_not_returned:
  "execute modeMulti [arrival ''a'' 1, arrival ''a'' 2]
     [Some (JString ''a''), Some (JString ''toString'')] initial =
     Inl (TypeError,
          \<lparr>sd_queue = None, sd_locked = None,
           sd_queues = Some [(''a'', \<lparr>queue = [entry ''a'' 2], locked = True\<rparr>)]\<rparr>,
          [1, 2]) \<and>
   locked (view (run_state initial scenario_inherited) (Keyed ''a'')) \<and>
   queue (view (run_state initial scenario_inherited) (Keyed ''a'')) = [entry ''a'' 2] \<and>
   run_output initial scenario_inherited = [] \<and>
   data (hd (queue (view (run_state initial scenario_inherited) (Keyed ''a''))))
     \<notin> set (run_output initial scenario_inherited)"
  by (simp add: run_defs scenario_inherited_def)
text \<open>
  C9 (one ordered output batch) does not hold of the code for every invocation. A multi
  mode invocation on the empty static data with an arrival under \<open>a\<close>, an arrival under
  \<open>b\<close> and the signal \<open>toString\<close>: the promotion phase admits both entries, locks both
  queues and pushes both payloads; the signal then throws, as in C8, and the invocation
  returns no output batch at all. The admissions it has decided stay in the static
  data.
\<close>

theorem thrown_invocation_returns_nothing:
  "execute modeMulti [arrival ''a'' 1, arrival ''b'' 2] [Some (JString ''toString'')] initial =
     Inl (TypeError,
          \<lparr>sd_queue = None, sd_locked = None,
           sd_queues = Some [(''a'', \<lparr>queue = [entry ''a'' 1], locked = True\<rparr>),
                             (''b'', \<lparr>queue = [entry ''b'' 2], locked = True\<rparr>)]\<rparr>,
          [1, 2]) \<and>
   returned \<lparr>inv_mode = modeMulti, inv_data = [arrival ''a'' 1, arrival ''b'' 2],
             inv_signals = [Some (JString ''toString'')]\<rparr> initial = None"
  by (simp add: run_defs)

text \<open>
  C10 (the empty key), as amended. A release signal whose key is the empty string is
  skipped like a signal with no key, in both modes. So in multi mode a batch of signals
  none of which selects the empty property name changes nothing in the queue stored
  under the empty key, whether the batch is processed to its end or stops at a throw;
  no signal whose key is a string, or that has no key, selects it. An entry that
  arrives under the empty key into the empty static data is admitted in its invocation
  and is still the holder of its queue after such signals.
\<close>

theorem empty_key_never_released:
  "signal_single (Some (JString [])) st out = signal_single None st out \<and>
   signal_single None st out = (st, out) \<and>
   signal_multi (Some (JString [])) qs out = signal_multi None qs out \<and>
   signal_multi None qs out = Inr (qs, out) \<and>
   selected (Some (JString s)) \<noteq> Some [] \<and>
   selected None \<noteq> Some [] \<and>
   ((\<forall>sk \<in> set sks. selected sk \<noteq> Some []) \<longrightarrow>
      (case signals_multi sks qs out of
         Inl (e, qs', out') \<Rightarrow> map_of qs' [] = map_of qs []
       | Inr (qs', out') \<Rightarrow> map_of qs' [] = map_of qs [])) \<and>
   ((\<forall>sk \<in> set sks. selected sk \<noteq> Some []) \<longrightarrow>
      (case execute modeMulti [\<lparr>item_key = [], item_data = d, item_now = t\<rparr>] sks initial of
         Inl (e, sd', out') \<Rightarrow>
           sd_queues sd' = Some [([], \<lparr>queue = [\<lparr>key = [], data = d, timestamp = t\<rparr>], locked = True\<rparr>)]
       | Inr (sd', out') \<Rightarrow>
           out' = [d] \<and>
           sd_queues sd' = Some [([], \<lparr>queue = [\<lparr>key = [], data = d, timestamp = t\<rparr>], locked = True\<rparr>)]))"
proof -
  have c1: "signal_single (Some (JString [])) st out = signal_single None st out"
    "signal_single None st out = (st, out)"
    by (simp_all add: signal_single_def)
  have c2: "signal_multi (Some (JString [])) qs out = signal_multi None qs out"
    "signal_multi None qs out = Inr (qs, out)"
    by (simp_all add: signal_multi_def)
  have c3: "selected (Some (JString s)) \<noteq> Some []" "selected None \<noteq> Some []"
    by (simp_all add: selected_simps)
  have c4: "case signals_multi sks qs out of
         Inl (e, qs', out') \<Rightarrow> map_of qs' [] = map_of qs []
       | Inr (qs', out') \<Rightarrow> map_of qs' [] = map_of qs []"
    if "\<forall>sk \<in> set sks. selected sk \<noteq> Some []"
    using signals_multi_frame[OF that, of qs out] signals_multi_frame_throw[OF that, of qs out]
    by (auto split: sum.splits)
  let ?s = "\<lparr>queue = [\<lparr>key = [], data = d, timestamp = t\<rparr>], locked = True\<rparr>"
  have e: "enqueue_multi [\<lparr>item_key = [], item_data = d, item_now = t\<rparr>] (initial_queues initial) =
      Inr [([], \<lparr>queue = [\<lparr>key = [], data = d, timestamp = t\<rparr>], locked = False\<rparr>)]"
    by (simp add: enqueue_multi_item_def get_property_def object_prototype_keys_def new_entry_def
        initial_queues_def initial_def)
  have p: "promote_multi [([], \<lparr>queue = [\<lparr>key = [], data = d, timestamp = t\<rparr>], locked = False\<rparr>)] [] =
      Inr ([([], ?s)], [d])"
    by (simp add: promote_multi_def object_keys_def is_array_index_def get_property_def)
  have ex: "execute modeMulti [\<lparr>item_key = [], item_data = d, item_now = t\<rparr>] sks initial =
      (case signals_multi sks [([], ?s)] [d] of
         Inl (e, qs3, out3) \<Rightarrow> Inl (e, initial\<lparr>sd_queues := Some qs3\<rparr>, out3)
       | Inr (qs3, out3) \<Rightarrow> Inr (initial\<lparr>sd_queues := Some qs3\<rparr>, out3))"
    unfolding execute_def Let_def e by (simp add: p)
  have c5: "case execute modeMulti [\<lparr>item_key = [], item_data = d, item_now = t\<rparr>] sks initial of
      Inl (e, sd', out') \<Rightarrow> sd_queues sd' = Some [([], ?s)]
    | Inr (sd', out') \<Rightarrow> out' = [d] \<and> sd_queues sd' = Some [([], ?s)]"
    if "\<forall>sk \<in> set sks. selected sk \<noteq> Some []"
    using signals_multi_only_empty_key[OF that, of ?s "[d]"] unfolding ex by auto
  from c1 c2 c3 c4 c5 show ?thesis by blast
qed

theorem empty_key_never_released_witness:
  "execute modeMulti [\<lparr>item_key = [], item_data = 1, item_now = 1001\<rparr>]
     [Some (JString []), Some (JString ''x''), None, Some (JNumber ''5''), Some (JArray [JNull, JNull])]
     (initial :: nat QueueStaticData) =
   Inr (\<lparr>sd_queue = None, sd_locked = None,
         sd_queues = Some [([], \<lparr>queue = [\<lparr>key = [], data = 1, timestamp = 1001\<rparr>], locked = True\<rparr>)]\<rparr>,
        [1])"
proof -
  let ?sks = "[Some (JString []), Some (JString ''x''), None, Some (JNumber ''5''),
     Some (JArray [JNull, JNull])]"
  let ?e = "execute modeMulti [\<lparr>item_key = [], item_data = 1::nat, item_now = 1001\<rparr>] ?sks initial"
  have h: "\<forall>sk \<in> set ?sks. selected sk \<noteq> Some []"
    by (simp add: selected_def to_property_key_def)
  have "\<exists>sd' out'. ?e = Inr (sd', out') \<and> sd_queue sd' = None \<and> sd_locked sd' = None"
    by (simp add: run_defs)
  then obtain sd' out' where r: "?e = Inr (sd', out')" "sd_queue sd' = None" "sd_locked sd' = None"
    by blast
  from empty_key_never_released[where sks = ?sks and d = "1::nat" and t = 1001] h
  have "case ?e of
      Inl (e, sd', out') \<Rightarrow>
        sd_queues sd' = Some [([], \<lparr>queue = [\<lparr>key = [], data = 1, timestamp = 1001\<rparr>], locked = True\<rparr>)]
    | Inr (sd', out') \<Rightarrow>
        out' = [1] \<and>
        sd_queues sd' = Some [([], \<lparr>queue = [\<lparr>key = [], data = 1, timestamp = 1001\<rparr>], locked = True\<rparr>)]"
    by blast
  then have "out' = [1] \<and>
    sd_queues sd' = Some [([], \<lparr>queue = [\<lparr>key = [], data = 1, timestamp = 1001\<rparr>], locked = True\<rparr>)]"
    unfolding r(1) by simp
  then show ?thesis using r by (cases sd') simp
qed

text \<open>
  C10 as it was claimed fails: an entry under the empty key can be released. The key of
  a signal need not be a string. An empty array is truthy, so it passes
  \<^verbatim>\<open>if (!signalKey) continue\<close>, and as a property name it is the empty string, so
  \<^verbatim>\<open>staticData.queues![signalKey]\<close> is the queue under the empty key. With two entries
  under the empty key the signal releases the first and admits the second.
\<close>

theorem empty_key_released_counterexample:
  "execute modeMulti [arrival [] 1, arrival [] 2] [Some (JArray [])] initial =
     Inr (\<lparr>sd_queue = None, sd_locked = None,
           sd_queues = Some [([], \<lparr>queue = [entry [] 2], locked = True\<rparr>)]\<rparr>,
          [1, 2])"
  by (simp add: run_defs)

end
